theory Spec2Isabelle
  imports Complex_Main "HOL-Library.Word"
begin

section \<open>JavaScript strings and numbers\<close>

text \<open>
  The planner is a single React component file, \<^verbatim>\<open>src/App.jsx\<close>. Its values are
  JavaScript strings, numbers, arrays and plain objects.

  A JavaScript string is a sequence of UTF-16 code units, and \<^verbatim>\<open>slice\<close> and
  \<^verbatim>\<open>length\<close> count code units, so a string is a list of 16-bit words. The template
  texts of the source are ASCII except for three characters (an en dash, an em dash and a
  right single quotation mark), which are single code units.

  A JavaScript number is modelled by the rational it denotes: arithmetic is exact, and
  \<^verbatim>\<open>NaN\<close>, the infinities and the rounding of IEEE doubles are outside the model. The
  number inputs of the form only produce finite values.
\<close>

type_synonym jsstring = "16 word list"
type_synonym number = rat

definition asc :: "string \<Rightarrow> jsstring" where
  "asc s = map (\<lambda>c. of_nat (of_char c)) s"

definition endash :: "16 word" where "endash = 0x2013"
definition emdash :: "16 word" where "emdash = 0x2014"
definition rsquo :: "16 word" where "rsquo = 0x2019"

text \<open>\<^verbatim>\<open>s || d\<close> on a string: the empty string is falsy.\<close>

definition or_str :: "jsstring \<Rightarrow> jsstring \<Rightarrow> jsstring" where
  "or_str s d = (if s = [] then d else s)"

text \<open>\<^verbatim>\<open>n || d\<close> on a number: zero is falsy.\<close>

definition or_num :: "number \<Rightarrow> number \<Rightarrow> number" where
  "or_num n d = (if n = 0 then d else n)"

text \<open>\<^verbatim>\<open>s.replaceAll(c, r)\<close> for a one-character pattern.\<close>

definition replaceAll :: "16 word \<Rightarrow> jsstring \<Rightarrow> jsstring \<Rightarrow> jsstring" where
  "replaceAll c r s = concat (map (\<lambda>x. if x = c then r else [x]) s)"

text \<open>\<^verbatim>\<open>xs.join(sep)\<close> on an array of strings.\<close>

fun join :: "jsstring \<Rightarrow> jsstring list \<Rightarrow> jsstring" where
  "join sep [] = []"
| "join sep [x] = x"
| "join sep (x # y # ys) = x @ sep @ join sep (y # ys)"

text \<open>
  \<^verbatim>\<open>Number::toString\<close>, which template literals and \<^verbatim>\<open>JSON.stringify\<close> apply to a
  number. The integer part is written in decimal digits, then the fractional digits, if
  any. The platform switches to exponent notation below \<open>10\<^sup>-\<^sup>6\<close> and from \<open>10\<^sup>2\<^sup>1\<close> on and
  prints at most 17 significant digits; the model prints plain notation with at most
  \<open>frac_digits_max\<close> fractional digits, which is what the platform prints on the numbers
  that satisfy \<open>plain_number\<close> below.
\<close>

fun nat_str :: "nat \<Rightarrow> jsstring" where
  "nat_str n = (if n < 10 then [of_nat (48 + n)]
                else nat_str (n div 10) @ [of_nat (48 + n mod 10)])"

declare nat_str.simps [simp del]

fun frac_str :: "nat \<Rightarrow> rat \<Rightarrow> jsstring" where
  "frac_str 0 f = []"
| "frac_str (Suc k) f =
     (if f = 0 then [] else of_nat (48 + nat \<lfloor>f * 10\<rfloor>) # frac_str k (frac (f * 10)))"

definition frac_digits_max :: nat where
  "frac_digits_max = 22"

definition num_str :: "number \<Rightarrow> jsstring" where
  "num_str x =
     (if x < 0 then [0x2D] else []) @ nat_str (nat \<lfloor>\<bar>x\<bar>\<rfloor>) @
     (if frac \<bar>x\<bar> = 0 then [] else 0x2E # frac_str frac_digits_max (frac \<bar>x\<bar>))"

text \<open>\<^verbatim>\<open>Math.round\<close>: the nearest integer, a tie going up.\<close>

definition Math_round :: "number \<Rightarrow> number" where
  "Math_round x = of_int \<lfloor>x + 1 / 2\<rfloor>"

section \<open>The data model (the JSDoc typedefs of the source)\<close>

text \<open>
  A field that a typedef marks optional, or that may be \<^verbatim>\<open>null\<close>, is an option. Two fields
  are renamed because their names are taken: \<^verbatim>\<open>id\<close> of a run is \<open>id_run\<close>, and \<^verbatim>\<open>notes\<close> of
  a student is \<open>notes_sd\<close>. A session number is a natural number: it is always the length
  of a list plus one.
\<close>

record StudentDetail =
  name :: "jsstring option"
  age :: "jsstring option"
  gender :: "jsstring option"
  interest :: "jsstring option"
  passion :: "jsstring option"
  energy :: "jsstring option"
  notes_sd :: "jsstring option"

record ClassProfile =
  subject :: jsstring
  expectation :: jsstring
  totalSessions :: number
  sessionLengthHours :: number
  numStudents :: number
  ageRange :: jsstring
  students :: "StudentDetail list"

record SessionFeedback =
  excitedCount :: "number option"
  digestible :: "jsstring option"
  otherInterests :: jsstring
  notGoodEnough :: jsstring

record SessionRecord =
  sessionNumber :: nat
  generatedAt :: jsstring
  planMd :: jsstring
  feedback :: "SessionFeedback option"

record ClassRun =
  id_run :: jsstring
  profile :: "ClassProfile option"
  sessions :: "SessionRecord list"

definition emptyStudent :: StudentDetail where
  "emptyStudent = \<lparr> name = Some [], age = Some [], gender = Some [], interest = Some [],
                     passion = Some [], energy = Some [], notes_sd = Some [] \<rparr>"

definition newEmptyProfile :: ClassProfile where
  "newEmptyProfile = \<lparr> subject = [], expectation = [], totalSessions = 8,
                        sessionLengthHours = 1, numStudents = 8,
                        ageRange = asc ''10'' @ [endash] @ asc ''13'',
                        students = [emptyStudent] \<rparr>"

definition defaultFeedback :: SessionFeedback where
  "defaultFeedback = \<lparr> excitedCount = None, digestible = None,
                        otherInterests = [], notGoodEnough = [] \<rparr>"

definition markdownEscape :: "jsstring \<Rightarrow> jsstring" where
  "markdownEscape s =
     replaceAll 0x3E (asc ''&gt;'') (replaceAll 0x3C (asc ''&lt;'') (or_str s []))"

section \<open>The signal deriver\<close>

record Signals =
  needsMoreEngagement :: bool
  needsMoreScaffold :: bool
  sessionTheme :: jsstring
  mentionInterests :: jsstring
  levelNote :: jsstring

text \<open>\<^verbatim>\<open>xs.filter(Boolean)\<close> on an array of strings, some of them undefined.\<close>

fun filter_Boolean :: "jsstring option list \<Rightarrow> jsstring list" where
  "filter_Boolean [] = []"
| "filter_Boolean (None # xs) = filter_Boolean xs"
| "filter_Boolean (Some s # xs) = (if s = [] then filter_Boolean xs else s # filter_Boolean xs)"

text \<open>
  \<open>deriveSignals\<close> reads its two objects through \<^verbatim>\<open>?.\<close>, so each may be undefined:
  both are options here.
\<close>

definition deriveSignals :: "ClassProfile option \<Rightarrow> SessionFeedback option \<Rightarrow> nat \<Rightarrow> Signals" where
  "deriveSignals prof fb sessionNo =
     (let groupSize = or_num (case prof of None \<Rightarrow> 0 | Some p \<Rightarrow> numStudents p) 0;
          excitement =
            (case fb of None \<Rightarrow> 0
             | Some f \<Rightarrow> (case excitedCount f of None \<Rightarrow> 0 | Some e \<Rightarrow> e)) / max 1 groupSize;
          digest =
            (case fb of None \<Rightarrow> None
             | Some f \<Rightarrow> (case digestible f of None \<Rightarrow> None
                          | Some d \<Rightarrow> if d = [] then None else Some d))
      in \<lparr> needsMoreEngagement = (excitement < 1 / 2),
           needsMoreScaffold = (digest = Some (asc ''no'') \<or> digest = Some (asc ''some'')),
           sessionTheme =
             or_str (case prof of None \<Rightarrow> [] | Some p \<Rightarrow> subject p) (asc ''General Learning''),
           mentionInterests =
             take 200
               (or_str (or_str (case fb of None \<Rightarrow> [] | Some f \<Rightarrow> otherInterests f)
                          (case prof of None \<Rightarrow> []
                           | Some p \<Rightarrow> join (asc '', '') (filter_Boolean (map interest (students p)))))
                  []),
           levelNote =
             asc ''Ages '' @ or_str (case prof of None \<Rightarrow> [] | Some p \<Rightarrow> ageRange p) [emdash] @
             asc '' | '' @ num_str groupSize @ asc '' students | Session '' @ nat_str sessionNo \<rparr>)"

section \<open>The template filler\<close>

definition block :: "jsstring \<Rightarrow> jsstring list \<Rightarrow> jsstring" where
  "block title items =
     asc ''### '' @ title @ [0x0A] @ join [0x0A] (map (\<lambda>i. asc ''- '' @ i) items) @ [0x0A, 0x0A]"

definition warmup :: "Signals \<Rightarrow> jsstring list" where
  "warmup s =
     (if needsMoreEngagement s
      then [asc ''Energy check-in: fist-to-five excitement poll'',
            asc ''2'' @ [endash] @ asc ''3 min icebreaker tied to interests'',
            asc ''Movement mini-game or quick quiz'']
      else [asc ''Quick recap from last session'',
            asc ''Pair share: goal for today''])"

definition teach :: "Signals \<Rightarrow> jsstring list" where
  "teach s =
     (if needsMoreScaffold s
      then [asc ''Micro-lesson: '' @ sessionTheme s @ asc '' (5'' @ [endash] @
              asc ''7 min, concrete examples)'',
            asc ''Guided demo with think-aloud; provide starter template'',
            asc ''Check for understanding: thumbs + 2 diagnostic questions'']
      else [asc ''Concept spotlight: '' @ sessionTheme s @ asc '' (interactive)'',
            asc ''Student discovery task in pairs; teacher circulates''])"

definition practice :: "Signals \<Rightarrow> jsstring list" where
  "practice s =
     [asc ''Team task: small groups tackle a bite-sized challenge'',
      (if needsMoreScaffold s then asc ''Provide scaffolded steps & exemplars''
       else asc ''Allow open-ended approaches; encourage creativity''),
      asc ''Midpoint pause: share strategies; highlight good moves'']"

definition apply_create :: "Signals \<Rightarrow> jsstring list" where
  "apply_create s =
     [asc ''Independent or pair build: mini-project applying today'' @ [rsquo] @
        asc ''s concept'',
      (if needsMoreEngagement s then asc ''Gamify with milestones/badges''
       else asc ''Stretch goal for early finishers'')]"

definition reflect :: "jsstring list" where
  "reflect =
     [asc ''2-minute exit ticket: one learning, one question, one improvement'',
      asc ''Student self-rating on confidence (1'' @ [endash] @
        asc ''5); teacher notes pacing'']"

definition homework :: "jsstring list" where
  "homework =
     [asc ''Optional: short practice or reflection journal (photo/upload ok)'',
      asc ''Bring one real-world example or question next session'']"

definition minutes :: "jsstring \<Rightarrow> number \<Rightarrow> jsstring" where
  "minutes label m = label @ asc '' '' @ [emdash] @ asc '' '' @ num_str m @ asc '' min''"

definition timing :: "number \<Rightarrow> jsstring list" where
  "timing len =
     [minutes (asc ''Warm-up & Engagement'') (Math_round (len * 10)),
      minutes (asc ''Mini-Lesson'') (Math_round (len * 15)),
      minutes (asc ''Guided Practice'') (Math_round (len * 15)),
      minutes (asc ''Project/Application'') (Math_round (len * 15)),
      minutes (asc ''Share & Reflect'') (Math_round (len * 5))]"

definition header :: "ClassProfile \<Rightarrow> Signals \<Rightarrow> nat \<Rightarrow> jsstring" where
  "header prof s sessionNo =
     asc ''# Session '' @ nat_str sessionNo @ asc '': '' @ markdownEscape (subject prof) @ [0x0A] @
     asc ''**'' @ levelNote s @ asc ''**'' @ [0x0A, 0x0A] @
     asc ''**Session Objective:** Build toward '' @
     markdownEscape (or_str (expectation prof) (asc ''the class goals'')) @
     asc '' using age-appropriate, high-engagement activities.'' @ [0x0A, 0x0A]"

text \<open>
  \<open>makePlanMarkdown\<close> reads \<^verbatim>\<open>profile.sessionLengthHours\<close> without \<^verbatim>\<open>?.\<close>: its profile
  is an object, and its one caller passes one.
\<close>

definition makePlanMarkdown :: "ClassProfile \<Rightarrow> SessionFeedback option \<Rightarrow> nat \<Rightarrow> jsstring" where
  "makePlanMarkdown prof fb sessionNo =
     (let s = deriveSignals (Some prof) fb sessionNo;
          len = or_num (sessionLengthHours prof) 1
      in header prof s sessionNo @
         block (asc ''Agenda (Suggested Timing)'') (timing len) @
         block (asc ''Warm-up & Engagement'') (warmup s) @
         block (asc ''Teach (Mini-Lesson)'') (teach s) @
         block (asc ''Guided Practice'') (practice s) @
         block (asc ''Apply & Create'') (apply_create s) @
         block (asc ''Reflect & Close'') reflect @
         block (asc ''Optional Extension / Home Connection'') homework)"

section \<open>The component state and its event handlers\<close>

text \<open>
  The component holds four state variables. An event handler is a closure of the render
  that created it: it reads the state of that render (\<open>snap\<close>), and every
  \<^verbatim>\<open>setRuns(prev => ...)\<close> it calls is queued and applied, in order, to the pending state
  (\<open>pend\<close>), which starts as the state of the render. So a handler is a function of both,
  and returns the pending state together with the alerts it raised.
  \<^verbatim>\<open>new Date().toISOString()\<close> and \<^verbatim>\<open>crypto.randomUUID()\<close> are inputs of the events.
\<close>

text \<open>
  The state variables \<^verbatim>\<open>profile\<close> and \<^verbatim>\<open>feedback\<close> of the component, which hold the two
  forms, are \<open>profile_st\<close> and \<open>feedback_st\<close>, to tell them from the fields of a run and of
  a session record.
\<close>

record AppState =
  runs :: "ClassRun list"
  activeId :: jsstring
  profile_st :: ClassProfile
  feedback_st :: SessionFeedback

definition alert_subject :: jsstring where
  "alert_subject = asc ''Please enter the subject of your class.''"

definition alert_all_generated :: jsstring where
  "alert_all_generated =
     asc ''All sessions have been generated. Adjust total sessions in the profile.''"

definition alert_generate_first :: jsstring where
  "alert_generate_first = asc ''Please generate at least one session plan first.''"

definition active_run :: "AppState \<Rightarrow> ClassRun option" where
  "active_run st = find (\<lambda>r. id_run r = activeId st) (runs st)"

definition saveProfile :: "AppState \<Rightarrow> AppState \<Rightarrow> AppState" where
  "saveProfile snap pend =
     pend\<lparr>runs := map (\<lambda>r. if id_run r = activeId snap
                             then r\<lparr>profile := Some (profile_st snap)\<rparr> else r) (runs pend)\<rparr>"

definition makePlan :: "jsstring \<Rightarrow> ClassProfile \<Rightarrow> SessionFeedback option \<Rightarrow> nat \<Rightarrow> SessionRecord" where
  "makePlan now prof lastFeedback nextIndex =
     \<lparr> sessionNumber = nextIndex, generatedAt = now,
       planMd = makePlanMarkdown prof lastFeedback nextIndex, feedback = None \<rparr>"

text \<open>\<^verbatim>\<open>run?.sessions.at(-1)?.feedback\<close>\<close>

definition last_feedback :: "ClassRun option \<Rightarrow> SessionFeedback option" where
  "last_feedback run =
     (case run of None \<Rightarrow> None
      | Some r \<Rightarrow> (if sessions r = [] then None else feedback (last (sessions r))))"

definition generateNextPlan :: "jsstring \<Rightarrow> AppState \<Rightarrow> AppState \<Rightarrow> AppState \<times> jsstring list" where
  "generateNextPlan now snap pend =
     (let run = active_run snap;
          pf = (case run of None \<Rightarrow> profile_st snap
                | Some r \<Rightarrow> (case profile r of None \<Rightarrow> profile_st snap | Some p \<Rightarrow> p))
      in if subject pf = [] then (pend, [alert_subject])
         else
           let nextIndex = (case run of None \<Rightarrow> 0 | Some r \<Rightarrow> length (sessions r)) + 1
           in if of_nat nextIndex > or_num (totalSessions pf) 1
              then (pend, [alert_all_generated])
              else
                let rec = makePlan now pf (last_feedback run) nextIndex
                in (pend\<lparr>runs := map (\<lambda>r. if id_run r = activeId snap
                                              then r\<lparr>sessions := sessions r @ [rec]\<rparr> else r)
                                      (runs pend)\<rparr>, []))"

definition submitFeedbackAndGenerate :: "jsstring \<Rightarrow> AppState \<Rightarrow> AppState \<times> jsstring list" where
  "submitFeedbackAndGenerate now snap =
     (case active_run snap of
        None \<Rightarrow> (snap, [alert_generate_first])
      | Some run \<Rightarrow>
          if length (sessions run) = 0 then (snap, [alert_generate_first])
          else
            let lastIdx = length (sessions run) - 1;
                updatedSessions =
                  map (\<lambda>(i, s). if i = lastIdx then s\<lparr>feedback := Some (feedback_st snap)\<rparr> else s)
                      (enumerate 0 (sessions run));
                updatedRun = run\<lparr>sessions := updatedSessions\<rparr>;
                pend1 = snap\<lparr>runs := map (\<lambda>r. if id_run r = activeId snap then updatedRun else r)
                                         (runs snap)\<rparr>;
                pend2 = pend1\<lparr>feedback_st := defaultFeedback\<rparr>
            in generateNextPlan now snap pend2)"

definition newClassRun :: "jsstring \<Rightarrow> AppState \<Rightarrow> AppState" where
  "newClassRun uuid snap =
     (let fresh = \<lparr> id_run = uuid, profile = Some newEmptyProfile, sessions = [] \<rparr>
      in \<lparr> runs = fresh # runs snap, activeId = uuid,
           profile_st = newEmptyProfile, feedback_st = defaultFeedback \<rparr>)"

text \<open>\<open>deleteRun\<close>: \<open>confirmed\<close> is the answer to the \<^verbatim>\<open>confirm\<close> dialog.\<close>

definition deleteRun :: "jsstring \<Rightarrow> bool \<Rightarrow> AppState \<Rightarrow> AppState" where
  "deleteRun i confirmed snap =
     (if \<not> confirmed then snap
      else
        let nxt = filter (\<lambda>r. id_run r \<noteq> i) (runs snap);
            st1 = snap\<lparr>runs := nxt\<rparr>
        in (case nxt of
              [] \<Rightarrow> st1
            | r # _ \<Rightarrow>
                if i = activeId snap
                then st1\<lparr>activeId := id_run r,
                         profile_st := (case profile r of None \<Rightarrow> newEmptyProfile | Some p \<Rightarrow> p)\<rparr>
                else st1))"

text \<open>The click on a class card: the card of the run at position \<open>k\<close>.\<close>

definition selectRun :: "nat \<Rightarrow> AppState \<Rightarrow> AppState" where
  "selectRun k snap =
     (if k < length (runs snap)
      then snap\<lparr>activeId := id_run (runs snap ! k),
                profile_st := (case profile (runs snap ! k) of None \<Rightarrow> newEmptyProfile
                               | Some p \<Rightarrow> p)\<rparr>
      else snap)"

datatype event =
    GenerateNextPlan jsstring
  | SubmitFeedback jsstring
  | SaveProfile
  | SetProfile ClassProfile
  | SetFeedback SessionFeedback
  | SelectRun nat
  | NewClassRun jsstring
  | DeleteRun jsstring bool

fun handle :: "event \<Rightarrow> AppState \<Rightarrow> AppState \<times> jsstring list" where
  "handle (GenerateNextPlan now) st = generateNextPlan now st st"
| "handle (SubmitFeedback now) st = submitFeedbackAndGenerate now st"
| "handle SaveProfile st = (saveProfile st st, [])"
| "handle (SetProfile p) st = (st\<lparr>profile_st := p\<rparr>, [])"
| "handle (SetFeedback f) st = (st\<lparr>feedback_st := f\<rparr>, [])"
| "handle (SelectRun k) st = (selectRun k st, [])"
| "handle (NewClassRun uuid) st = (newClassRun uuid st, [])"
| "handle (DeleteRun i c) st = (deleteRun i c st, [])"

text \<open>A sequence of user events, each handled in the state the previous one left.\<close>

fun run_events :: "event list \<Rightarrow> AppState \<Rightarrow> AppState" where
  "run_events [] st = st"
| "run_events (e # es) st = run_events es (fst (handle e st))"

section \<open>The store: \<^verbatim>\<open>JSON.stringify\<close>, \<^verbatim>\<open>JSON.parse\<close>, \<open>saveRuns\<close>, \<open>loadRuns\<close>\<close>

text \<open>
  The runs are kept in one \<^verbatim>\<open>localStorage\<close> slot as the text \<^verbatim>\<open>JSON.stringify(runs)\<close> and
  are read back with \<^verbatim>\<open>JSON.parse\<close>. Both are functions of the platform. They are
  modelled on JSON values after the JSON grammar (ECMA-404) and the ECMAScript definition
  of \<^verbatim>\<open>JSON.stringify\<close> without indentation. An object is the list of its members in
  enumeration order; keys that are array indices, which the platform enumerates first, do
  not occur in the objects of the planner.
\<close>

datatype json =
    JNull
  | JBool bool
  | JNum number
  | JStr jsstring
  | JArr "json list"
  | JObj "(jsstring \<times> json) list"

subsection \<open>JSON.stringify\<close>

text \<open>
  \<open>QuoteJSONString\<close>: the quotation mark, the backslash and five control characters have
  two-character escapes; every other control character and every lone surrogate is
  written \<^verbatim>\<open>\uXXXX\<close> in lower-case hexadecimal; a surrogate pair and every other code
  unit is written as it is. A number is written by \<^verbatim>\<open>Number::toString\<close>. A property whose
  value is undefined is left out, which the typed encoding below does before the text is
  made.
\<close>

definition hexdigit :: "nat \<Rightarrow> 16 word" where
  "hexdigit d = of_nat (if d < 10 then 48 + d else 87 + d)"

definition uescape :: "16 word \<Rightarrow> jsstring" where
  "uescape c =
     (let n = unat c
      in [0x5C, 0x75, hexdigit (n div 4096), hexdigit (n div 256 mod 16),
          hexdigit (n div 16 mod 16), hexdigit (n mod 16)])"

definition is_high :: "16 word \<Rightarrow> bool" where
  "is_high c = (0xD800 \<le> c \<and> c \<le> 0xDBFF)"

definition is_low :: "16 word \<Rightarrow> bool" where
  "is_low c = (0xDC00 \<le> c \<and> c \<le> 0xDFFF)"

definition quote_unit :: "16 word \<Rightarrow> jsstring" where
  "quote_unit c =
     (if c = 0x08 then [0x5C, 0x62]
      else if c = 0x09 then [0x5C, 0x74]
      else if c = 0x0A then [0x5C, 0x6E]
      else if c = 0x0C then [0x5C, 0x66]
      else if c = 0x0D then [0x5C, 0x72]
      else if c = 0x22 then [0x5C, 0x22]
      else if c = 0x5C then [0x5C, 0x5C]
      else if c < 0x20 \<or> is_high c \<or> is_low c then uescape c
      else [c])"

fun quote_units :: "jsstring \<Rightarrow> jsstring" where
  "quote_units [] = []"
| "quote_units [c] = quote_unit c"
| "quote_units (c # d # cs) =
     (if is_high c \<and> is_low d then c # d # quote_units cs
      else quote_unit c @ quote_units (d # cs))"

definition QuoteJSONString :: "jsstring \<Rightarrow> jsstring" where
  "QuoteJSONString s = 0x22 # quote_units s @ [0x22]"

fun stringify :: "json \<Rightarrow> jsstring"
  and stringify_elems :: "json list \<Rightarrow> jsstring"
  and stringify_members :: "(jsstring \<times> json) list \<Rightarrow> jsstring"
where
  "stringify JNull = asc ''null''"
| "stringify (JBool b) = (if b then asc ''true'' else asc ''false'')"
| "stringify (JNum x) = num_str x"
| "stringify (JStr s) = QuoteJSONString s"
| "stringify (JArr vs) = 0x5B # stringify_elems vs @ [0x5D]"
| "stringify (JObj kvs) = 0x7B # stringify_members kvs @ [0x7D]"
| "stringify_elems [] = []"
| "stringify_elems [v] = stringify v"
| "stringify_elems (v # w # vs) = stringify v @ 0x2C # stringify_elems (w # vs)"
| "stringify_members [] = []"
| "stringify_members [(k, v)] = QuoteJSONString k @ 0x3A # stringify v"
| "stringify_members ((k, v) # kv # kvs) =
     QuoteJSONString k @ 0x3A # stringify v @ 0x2C # stringify_members (kv # kvs)"

definition JSON_stringify :: "json \<Rightarrow> jsstring" where
  "JSON_stringify v = stringify v"

subsection \<open>JSON.parse\<close>

text \<open>
  \<^verbatim>\<open>JSON.parse\<close> raises a \<^verbatim>\<open>SyntaxError\<close> on a text that is not JSON: the result
  \<open>None\<close>. The parser counts its recursion down from the length of the text and one
  more; that this fuel never runs out is proved below (\<open>JSON_parse_None_iff\<close>).
\<close>

definition is_ws :: "16 word \<Rightarrow> bool" where
  "is_ws c = (c = 0x20 \<or> c = 0x09 \<or> c = 0x0A \<or> c = 0x0D)"

definition skip_ws :: "jsstring \<Rightarrow> jsstring" where
  "skip_ws s = dropWhile is_ws s"

definition is_digit :: "16 word \<Rightarrow> bool" where
  "is_digit c = (0x30 \<le> c \<and> c \<le> 0x39)"

definition digits_val :: "jsstring \<Rightarrow> nat" where
  "digits_val ds = foldl (\<lambda>a c. a * 10 + (unat c - 48)) 0 ds"

definition hexval :: "16 word \<Rightarrow> nat option" where
  "hexval c =
     (let n = unat c
      in if 48 \<le> n \<and> n \<le> 57 then Some (n - 48)
         else if 97 \<le> n \<and> n \<le> 102 then Some (n - 87)
         else if 65 \<le> n \<and> n \<le> 70 then Some (n - 55)
         else None)"

definition hex4 :: "16 word \<Rightarrow> 16 word \<Rightarrow> 16 word \<Rightarrow> 16 word \<Rightarrow> 16 word option" where
  "hex4 a b c d =
     (case (hexval a, hexval b, hexval c, hexval d) of
        (Some x, Some y, Some z, Some w) \<Rightarrow> Some (of_nat (x * 4096 + y * 256 + z * 16 + w))
      | _ \<Rightarrow> None)"

definition unescape :: "16 word \<Rightarrow> 16 word option" where
  "unescape e =
     (if e = 0x22 then Some 0x22
      else if e = 0x5C then Some 0x5C
      else if e = 0x2F then Some 0x2F
      else if e = 0x62 then Some 0x08
      else if e = 0x66 then Some 0x0C
      else if e = 0x6E then Some 0x0A
      else if e = 0x72 then Some 0x0D
      else if e = 0x74 then Some 0x09
      else None)"

definition cons_result :: "'a \<Rightarrow> ('a list \<times> jsstring) option \<Rightarrow> ('a list \<times> jsstring) option" where
  "cons_result x r = (case r of None \<Rightarrow> None | Some (xs, rest) \<Rightarrow> Some (x # xs, rest))"

fun parse_chars :: "jsstring \<Rightarrow> (jsstring \<times> jsstring) option" where
  "parse_chars [] = None"
| "parse_chars (c # cs) =
     (if c = 0x22 then Some ([], cs)
      else if c = 0x5C then
        (case cs of
           [] \<Rightarrow> None
         | e # es \<Rightarrow>
             if e = 0x75 then
               (case es of
                  h1 # h2 # h3 # h4 # r \<Rightarrow>
                    (case hex4 h1 h2 h3 h4 of
                       None \<Rightarrow> None
                     | Some u \<Rightarrow> cons_result u (parse_chars r))
                | _ \<Rightarrow> None)
             else
               (case unescape e of
                  None \<Rightarrow> None
                | Some u \<Rightarrow> cons_result u (parse_chars es)))
      else if c < 0x20 then None
      else cons_result c (parse_chars cs))"

declare parse_chars.simps [simp del]

definition pow10 :: "int \<Rightarrow> rat" where
  "pow10 e = (if 0 \<le> e then 10 ^ nat e else 1 / 10 ^ nat (- e))"

definition parse_int_part :: "jsstring \<Rightarrow> (nat \<times> jsstring) option" where
  "parse_int_part s =
     (let ip = takeWhile is_digit s
      in if ip = [] \<or> (1 < length ip \<and> hd ip = 0x30) then None
         else Some (digits_val ip, dropWhile is_digit s))"

definition parse_frac_part :: "jsstring \<Rightarrow> (rat \<times> jsstring) option" where
  "parse_frac_part s =
     (if s \<noteq> [] \<and> hd s = 0x2E then
        (let fp = takeWhile is_digit (tl s)
         in if fp = [] then None
            else Some (of_nat (digits_val fp) / 10 ^ length fp, dropWhile is_digit (tl s)))
      else Some (0, s))"

definition parse_exp_part :: "jsstring \<Rightarrow> (int \<times> jsstring) option" where
  "parse_exp_part s =
     (if s \<noteq> [] \<and> (hd s = 0x65 \<or> hd s = 0x45) then
        (let s1 = tl s;
             eneg = (s1 \<noteq> [] \<and> hd s1 = 0x2D);
             s2 = (if s1 \<noteq> [] \<and> (hd s1 = 0x2D \<or> hd s1 = 0x2B) then tl s1 else s1);
             ep = takeWhile is_digit s2
         in if ep = [] then None
            else Some (if eneg then - int (digits_val ep) else int (digits_val ep),
                       dropWhile is_digit s2))
      else Some (0, s))"

definition parse_number :: "jsstring \<Rightarrow> (number \<times> jsstring) option" where
  "parse_number s =
     (let neg = (s \<noteq> [] \<and> hd s = 0x2D)
      in case parse_int_part (if neg then tl s else s) of
           None \<Rightarrow> None
         | Some (i, s2) \<Rightarrow>
             (case parse_frac_part s2 of
                None \<Rightarrow> None
              | Some (f, s3) \<Rightarrow>
                  (case parse_exp_part s3 of
                     None \<Rightarrow> None
                   | Some (e, s4) \<Rightarrow>
                       Some ((if neg then - (of_nat i + f) else of_nat i + f) * pow10 e, s4))))"

definition expect :: "jsstring \<Rightarrow> jsstring \<Rightarrow> jsstring option" where
  "expect lit s = (if take (length lit) s = lit then Some (drop (length lit) s) else None)"

text \<open>A later duplicate of a key replaces the value of the earlier one, in its place.\<close>

fun set_member :: "jsstring \<Rightarrow> json \<Rightarrow> (jsstring \<times> json) list \<Rightarrow> (jsstring \<times> json) list" where
  "set_member k v [] = [(k, v)]"
| "set_member k v ((k', v') # kvs) =
     (if k' = k then (k, v) # kvs else (k', v') # set_member k v kvs)"

fun parse_value :: "nat \<Rightarrow> jsstring \<Rightarrow> (json \<times> jsstring) option"
  and parse_elements :: "nat \<Rightarrow> jsstring \<Rightarrow> (json list \<times> jsstring) option"
  and parse_members :: "nat \<Rightarrow> (jsstring \<times> json) list \<Rightarrow> jsstring \<Rightarrow> (json \<times> jsstring) option"
where
  "parse_value 0 s = None"
| "parse_value (Suc n) s =
     (case skip_ws s of
        [] \<Rightarrow> None
      | c # cs \<Rightarrow>
          if c = 0x7B then
            (case skip_ws cs of
               [] \<Rightarrow> None
             | d # ds \<Rightarrow> if d = 0x7D then Some (JObj [], ds) else parse_members n [] cs)
          else if c = 0x5B then
            (case skip_ws cs of
               [] \<Rightarrow> None
             | d # ds \<Rightarrow>
                 if d = 0x5D then Some (JArr [], ds)
                 else (case parse_elements n cs of
                         None \<Rightarrow> None
                       | Some (vs, r) \<Rightarrow> Some (JArr vs, r)))
          else if c = 0x22 then
            (case parse_chars cs of None \<Rightarrow> None | Some (str, r) \<Rightarrow> Some (JStr str, r))
          else if c = 0x74 then
            (case expect (asc ''rue'') cs of None \<Rightarrow> None | Some r \<Rightarrow> Some (JBool True, r))
          else if c = 0x66 then
            (case expect (asc ''alse'') cs of None \<Rightarrow> None | Some r \<Rightarrow> Some (JBool False, r))
          else if c = 0x6E then
            (case expect (asc ''ull'') cs of None \<Rightarrow> None | Some r \<Rightarrow> Some (JNull, r))
          else
            (case parse_number (c # cs) of None \<Rightarrow> None | Some (x, r) \<Rightarrow> Some (JNum x, r)))"
| "parse_elements 0 s = None"
| "parse_elements (Suc n) s =
     (case parse_value n s of
        None \<Rightarrow> None
      | Some (v, r) \<Rightarrow>
          (case skip_ws r of
             [] \<Rightarrow> None
           | c # cs \<Rightarrow>
               if c = 0x2C then cons_result v (parse_elements n cs)
               else if c = 0x5D then Some ([v], cs)
               else None))"
| "parse_members 0 acc s = None"
| "parse_members (Suc n) acc s =
     (case skip_ws s of
        [] \<Rightarrow> None
      | q # qs \<Rightarrow>
          if q \<noteq> 0x22 then None
          else
            (case parse_chars qs of
               None \<Rightarrow> None
             | Some (k, r) \<Rightarrow>
                 (case skip_ws r of
                    [] \<Rightarrow> None
                  | c # cs \<Rightarrow>
                      if c \<noteq> 0x3A then None
                      else
                        (case parse_value n cs of
                           None \<Rightarrow> None
                         | Some (v, r') \<Rightarrow>
                             (case skip_ws r' of
                                [] \<Rightarrow> None
                              | d # ds \<Rightarrow>
                                  if d = 0x2C then parse_members n (set_member k v acc) ds
                                  else if d = 0x7D then Some (JObj (set_member k v acc), ds)
                                  else None)))))"

declare parse_value.simps [simp del] parse_elements.simps [simp del]
  parse_members.simps [simp del]

definition JSON_parse :: "jsstring \<Rightarrow> json option" where
  "JSON_parse s =
     (case parse_value (Suc (length s)) s of
        None \<Rightarrow> None
      | Some (v, r) \<Rightarrow> if skip_ws r = [] then Some v else None)"

subsection \<open>\<open>loadRuns\<close> and \<open>saveRuns\<close>\<close>

text \<open>
  The slot is \<open>None\<close> when the key is absent (\<^verbatim>\<open>getItem\<close> returns \<^verbatim>\<open>null\<close>). \<open>loadRuns\<close>
  is \<^verbatim>\<open>try { return JSON.parse(getItem(KEY) || "[]") || [] } catch { return [] }\<close>: its
  result is whatever value the text denotes, a list of runs or not. \<^verbatim>\<open>setItem\<close> is taken
  not to fail (the platform raises when the quota is exceeded).
\<close>

definition truthy :: "json \<Rightarrow> bool" where
  "truthy v =
     (case v of JNull \<Rightarrow> False | JBool b \<Rightarrow> b | JNum x \<Rightarrow> x \<noteq> 0 | JStr s \<Rightarrow> s \<noteq> []
      | JArr vs \<Rightarrow> True | JObj kvs \<Rightarrow> True)"

definition loadRuns :: "jsstring option \<Rightarrow> json" where
  "loadRuns slot =
     (case JSON_parse (case slot of None \<Rightarrow> asc ''[]'' | Some s \<Rightarrow> or_str s (asc ''[]'')) of
        None \<Rightarrow> JArr []
      | Some v \<Rightarrow> if truthy v then v else JArr [])"

definition saveRuns :: "json \<Rightarrow> jsstring option \<Rightarrow> jsstring option" where
  "saveRuns rs slot = Some (JSON_stringify rs)"

section \<open>Notions of the specification\<close>

text \<open>
  The plan text around a given agenda: the header and the six later sections as
  \<open>makePlanMarkdown\<close> writes them, with the items of the agenda section left open.
\<close>

definition plan_with_agenda ::
  "ClassProfile \<Rightarrow> SessionFeedback option \<Rightarrow> nat \<Rightarrow> jsstring list \<Rightarrow> jsstring" where
  "plan_with_agenda prof fb sessionNo items =
     (let s = deriveSignals (Some prof) fb sessionNo
      in header prof s sessionNo @
         block (asc ''Agenda (Suggested Timing)'') items @
         block (asc ''Warm-up & Engagement'') (warmup s) @
         block (asc ''Teach (Mini-Lesson)'') (teach s) @
         block (asc ''Guided Practice'') (practice s) @
         block (asc ''Apply & Create'') (apply_create s) @
         block (asc ''Reflect & Close'') reflect @
         block (asc ''Optional Extension / Home Connection'') homework)"

text \<open>
  The five time blocks in the words of the specification: 10, 15, 15, 15 and 5 minutes per
  hour of \<open>h\<close>, each rounded to the nearest integer.
\<close>

definition agenda_spec :: "number \<Rightarrow> jsstring list" where
  "agenda_spec h =
     [minutes (asc ''Warm-up & Engagement'') (of_int (round (h * 10))),
      minutes (asc ''Mini-Lesson'') (of_int (round (h * 15))),
      minutes (asc ''Guided Practice'') (of_int (round (h * 15))),
      minutes (asc ''Project/Application'') (of_int (round (h * 15))),
      minutes (asc ''Share & Reflect'') (of_int (round (h * 5)))]"

text \<open>
  The bound that the generation guard keeps: a run with a profile has at most
  \<^verbatim>\<open>totalSessions || 1\<close> sessions.
\<close>

definition within_total :: "ClassRun \<Rightarrow> bool" where
  "within_total r =
     (case profile r of None \<Rightarrow> True
      | Some p \<Rightarrow> of_nat (length (sessions r)) \<le> or_num (totalSessions p) 1)"

subsection \<open>The scenarios of the specification, as data\<close>

definition robotics :: ClassProfile where
  "robotics = newEmptyProfile\<lparr>subject := asc ''Robotics'', totalSessions := 2, numStudents := 4\<rparr>"

definition fb_e2e :: SessionFeedback where
  "fb_e2e = defaultFeedback\<lparr>excitedCount := Some 1, digestible := Some (asc ''no'')\<rparr>"

definition st_e2e :: AppState where
  "st_e2e = \<lparr> runs = [\<lparr> id_run = asc ''r1'', profile = Some robotics, sessions = [] \<rparr>],
              activeId = asc ''r1'', profile_st = robotics, feedback_st = defaultFeedback \<rparr>"

definition t1 :: jsstring where "t1 = asc ''2025-01-01T09:00:00.000Z''"
definition t2 :: jsstring where "t2 = asc ''2025-01-08T09:00:00.000Z''"
definition t3 :: jsstring where "t3 = asc ''2025-01-15T09:00:00.000Z''"

definition robotics0 :: ClassProfile where
  "robotics0 = newEmptyProfile\<lparr>subject := asc ''Robotics'', totalSessions := 0\<rparr>"

definition st_zero_total :: AppState where
  "st_zero_total =
     \<lparr> runs = [\<lparr> id_run = asc ''r1'', profile = Some robotics0, sessions = [] \<rparr>],
       activeId = asc ''r1'', profile_st = robotics0, feedback_st = defaultFeedback \<rparr>"

definition robotics1 :: ClassProfile where
  "robotics1 = robotics\<lparr>totalSessions := 1\<rparr>"

definition run_full :: ClassRun where
  "run_full = \<lparr> id_run = asc ''r1'', profile = Some robotics1,
                 sessions = [makePlan t1 robotics1 None 1] \<rparr>"

definition st_full :: AppState where
  "st_full = \<lparr> runs = [run_full], activeId = asc ''r1'', profile_st = robotics1,
               feedback_st = defaultFeedback \<rparr>"

definition run_blank :: ClassRun where
  "run_blank = \<lparr> id_run = asc ''r1'', profile = Some newEmptyProfile, sessions = [] \<rparr>"

definition st_blank :: AppState where
  "st_blank = \<lparr> runs = [run_blank], activeId = asc ''r1'', profile_st = newEmptyProfile,
                feedback_st = defaultFeedback \<rparr>"

subsection \<open>What a later state keeps of a session record\<close>

text \<open>
  A run is found by its identifier, as the handlers find it (\<^verbatim>\<open>runs.find\<close>: the first
  match). \<open>extends_run r r'\<close> says that \<open>r'\<close> has every session of \<open>r\<close>, in its place,
  with the same number, timestamp and plan text, and the same feedback on every session
  of \<open>r\<close> but its last. \<open>fresh_ids\<close> says that each \<^verbatim>\<open>crypto.randomUUID()\<close> of a sequence
  of events is an identifier not seen before.
\<close>

definition lookup_run :: "jsstring \<Rightarrow> AppState \<Rightarrow> ClassRun option" where
  "lookup_run i st = find (\<lambda>r. id_run r = i) (runs st)"

definition same_plan :: "SessionRecord \<Rightarrow> SessionRecord \<Rightarrow> bool" where
  "same_plan a b =
     (sessionNumber a = sessionNumber b \<and> generatedAt a = generatedAt b \<and> planMd a = planMd b)"

definition extends_run :: "ClassRun \<Rightarrow> ClassRun \<Rightarrow> bool" where
  "extends_run r r' =
     (length (sessions r) \<le> length (sessions r') \<and>
      list_all2 same_plan (sessions r) (take (length (sessions r)) (sessions r')) \<and>
      map feedback (butlast (sessions r)) =
        take (length (sessions r) - 1) (map feedback (sessions r')))"

fun fresh_ids :: "jsstring list \<Rightarrow> event list \<Rightarrow> bool" where
  "fresh_ids used [] = True"
| "fresh_ids used (NewClassRun u # es) = (u \<notin> set used \<and> fresh_ids (u # used) es)"
| "fresh_ids used (e # es) = fresh_ids used es"

definition still_extends :: "ClassRun \<Rightarrow> ClassRun option \<Rightarrow> bool" where
  "still_extends r x = (case x of None \<Rightarrow> True | Some r' \<Rightarrow> extends_run r r')"


definition run_ids :: "AppState \<Rightarrow> jsstring set" where
  "run_ids st = id_run ` set (runs st)"

definition fb_other :: SessionFeedback where
  "fb_other = defaultFeedback\<lparr>excitedCount := Some 4, digestible := Some (asc ''yes'')\<rparr>"

subsection \<open>Runs as JSON values\<close>

text \<open>
  The JSON value of a list of runs: each record is the object of its fields, in the order
  of the object literals of the source, and a field that is undefined has no member
  (\<^verbatim>\<open>JSON.stringify\<close> leaves it out). \<open>runs_of_js\<close> reads a value field by field as a list
  of runs. A number is well formed for the store when the model prints it as the platform
  does: a decimal fraction in the range of plain notation.
\<close>

definition plain_number :: "number \<Rightarrow> bool" where
  "plain_number x =
     ((x = 0 \<or> 1 / 10 ^ 6 \<le> \<bar>x\<bar>) \<and> \<bar>x\<bar> < 10 ^ 21 \<and> frac (x * 10 ^ frac_digits_max) = 0)"

fun wf_json :: "json \<Rightarrow> bool"
  and wf_elems :: "json list \<Rightarrow> bool"
  and wf_members :: "(jsstring \<times> json) list \<Rightarrow> bool"
where
  "wf_json JNull = True"
| "wf_json (JBool b) = True"
| "wf_json (JNum x) = plain_number x"
| "wf_json (JStr s) = True"
| "wf_json (JArr vs) = wf_elems vs"
| "wf_json (JObj kvs) = (distinct (map fst kvs) \<and> wf_members kvs)"
| "wf_elems [] = True"
| "wf_elems (v # vs) = (wf_json v \<and> wf_elems vs)"
| "wf_members [] = True"
| "wf_members ((k, v) # kvs) = (wf_json v \<and> wf_members kvs)"

fun members :: "(jsstring \<times> json option) list \<Rightarrow> (jsstring \<times> json) list" where
  "members [] = []"
| "members ((k, None) # kxs) = members kxs"
| "members ((k, Some v) # kxs) = (k, v) # members kxs"

definition obj :: "(jsstring \<times> json option) list \<Rightarrow> json" where
  "obj kxs = JObj (members kxs)"

definition js_of_student :: "StudentDetail \<Rightarrow> json" where
  "js_of_student s =
     obj [(asc ''name'', map_option JStr (name s)),
          (asc ''age'', map_option JStr (age s)),
          (asc ''gender'', map_option JStr (gender s)),
          (asc ''interest'', map_option JStr (interest s)),
          (asc ''passion'', map_option JStr (passion s)),
          (asc ''energy'', map_option JStr (energy s)),
          (asc ''notes'', map_option JStr (notes_sd s))]"

definition js_of_profile :: "ClassProfile \<Rightarrow> json" where
  "js_of_profile p =
     obj [(asc ''subject'', Some (JStr (subject p))),
          (asc ''expectation'', Some (JStr (expectation p))),
          (asc ''totalSessions'', Some (JNum (totalSessions p))),
          (asc ''sessionLengthHours'', Some (JNum (sessionLengthHours p))),
          (asc ''numStudents'', Some (JNum (numStudents p))),
          (asc ''ageRange'', Some (JStr (ageRange p))),
          (asc ''students'', Some (JArr (map js_of_student (students p))))]"

definition js_of_feedback :: "SessionFeedback \<Rightarrow> json" where
  "js_of_feedback f =
     obj [(asc ''excitedCount'',
             Some (case excitedCount f of None \<Rightarrow> JNull | Some x \<Rightarrow> JNum x)),
          (asc ''digestible'',
             Some (case digestible f of None \<Rightarrow> JNull | Some d \<Rightarrow> JStr d)),
          (asc ''otherInterests'', Some (JStr (otherInterests f))),
          (asc ''notGoodEnough'', Some (JStr (notGoodEnough f)))]"

definition js_of_session :: "SessionRecord \<Rightarrow> json" where
  "js_of_session r =
     obj [(asc ''sessionNumber'', Some (JNum (of_nat (sessionNumber r)))),
          (asc ''generatedAt'', Some (JStr (generatedAt r))),
          (asc ''planMd'', Some (JStr (planMd r))),
          (asc ''feedback'', map_option js_of_feedback (feedback r))]"

definition js_of_run :: "ClassRun \<Rightarrow> json" where
  "js_of_run r =
     obj [(asc ''id'', Some (JStr (id_run r))),
          (asc ''profile'', map_option js_of_profile (profile r)),
          (asc ''sessions'', Some (JArr (map js_of_session (sessions r))))]"

definition js_of_runs :: "ClassRun list \<Rightarrow> json" where
  "js_of_runs rs = JArr (map js_of_run rs)"

definition field :: "json \<Rightarrow> jsstring \<Rightarrow> json option" where
  "field v k = (case v of JObj kvs \<Rightarrow> map_of kvs k | _ \<Rightarrow> None)"

definition as_str :: "json option \<Rightarrow> jsstring option" where
  "as_str x = (case x of Some (JStr s) \<Rightarrow> Some s | _ \<Rightarrow> None)"

definition as_num :: "json option \<Rightarrow> number option" where
  "as_num x = (case x of Some (JNum n) \<Rightarrow> Some n | _ \<Rightarrow> None)"

definition as_obj :: "json option \<Rightarrow> json option" where
  "as_obj x = (case x of Some (JObj kvs) \<Rightarrow> Some (JObj kvs) | _ \<Rightarrow> None)"

definition as_list :: "json option \<Rightarrow> json list" where
  "as_list x = (case x of Some (JArr vs) \<Rightarrow> vs | _ \<Rightarrow> [])"

definition str_or_empty :: "json option \<Rightarrow> jsstring" where
  "str_or_empty x = (case as_str x of Some s \<Rightarrow> s | None \<Rightarrow> [])"

definition num_or_zero :: "json option \<Rightarrow> number" where
  "num_or_zero x = (case as_num x of Some n \<Rightarrow> n | None \<Rightarrow> 0)"

definition student_of_js :: "json \<Rightarrow> StudentDetail" where
  "student_of_js v =
     \<lparr> name = as_str (field v (asc ''name'')), age = as_str (field v (asc ''age'')),
       gender = as_str (field v (asc ''gender'')), interest = as_str (field v (asc ''interest'')),
       passion = as_str (field v (asc ''passion'')), energy = as_str (field v (asc ''energy'')),
       notes_sd = as_str (field v (asc ''notes'')) \<rparr>"

definition profile_of_js :: "json \<Rightarrow> ClassProfile" where
  "profile_of_js v =
     \<lparr> subject = str_or_empty (field v (asc ''subject'')),
       expectation = str_or_empty (field v (asc ''expectation'')),
       totalSessions = num_or_zero (field v (asc ''totalSessions'')),
       sessionLengthHours = num_or_zero (field v (asc ''sessionLengthHours'')),
       numStudents = num_or_zero (field v (asc ''numStudents'')),
       ageRange = str_or_empty (field v (asc ''ageRange'')),
       students = map student_of_js (as_list (field v (asc ''students''))) \<rparr>"

definition feedback_of_js :: "json \<Rightarrow> SessionFeedback" where
  "feedback_of_js v =
     \<lparr> excitedCount = as_num (field v (asc ''excitedCount'')),
       digestible = as_str (field v (asc ''digestible'')),
       otherInterests = str_or_empty (field v (asc ''otherInterests'')),
       notGoodEnough = str_or_empty (field v (asc ''notGoodEnough'')) \<rparr>"

definition session_of_js :: "json \<Rightarrow> SessionRecord" where
  "session_of_js v =
     \<lparr> sessionNumber = nat \<lfloor>num_or_zero (field v (asc ''sessionNumber''))\<rfloor>,
       generatedAt = str_or_empty (field v (asc ''generatedAt'')),
       planMd = str_or_empty (field v (asc ''planMd'')),
       feedback = map_option feedback_of_js (as_obj (field v (asc ''feedback''))) \<rparr>"

definition run_of_js :: "json \<Rightarrow> ClassRun" where
  "run_of_js v =
     \<lparr> id_run = str_or_empty (field v (asc ''id'')),
       profile = map_option profile_of_js (as_obj (field v (asc ''profile''))),
       sessions = map session_of_js (as_list (field v (asc ''sessions''))) \<rparr>"

definition runs_of_js :: "json \<Rightarrow> ClassRun list" where
  "runs_of_js v = map run_of_js (as_list (Some v))"

definition wf_profile :: "ClassProfile \<Rightarrow> bool" where
  "wf_profile p =
     (plain_number (totalSessions p) \<and> plain_number (sessionLengthHours p) \<and>
      plain_number (numStudents p))"

definition wf_feedback :: "SessionFeedback \<Rightarrow> bool" where
  "wf_feedback f = (case excitedCount f of None \<Rightarrow> True | Some x \<Rightarrow> plain_number x)"

definition wf_session :: "SessionRecord \<Rightarrow> bool" where
  "wf_session r =
     (sessionNumber r < 10 ^ 21 \<and> (case feedback r of None \<Rightarrow> True | Some f \<Rightarrow> wf_feedback f))"

definition wf_run :: "ClassRun \<Rightarrow> bool" where
  "wf_run r =
     ((case profile r of None \<Rightarrow> True | Some p \<Rightarrow> wf_profile p) \<and> list_all wf_session (sessions r))"

definition wf_runs :: "ClassRun list \<Rightarrow> bool" where
  "wf_runs rs = list_all wf_run rs"

definition run_stored :: ClassRun where
  "run_stored =
     \<lparr> id_run = asc ''r1'',
       profile = Some (robotics\<lparr>sessionLengthHours := 3 / 2,
                               expectation := asc ''say '' @ [0x22] @ asc ''hi'' @ [0x22, 0x0A]\<rparr>),
       sessions = [(makePlan t1 robotics None 1)\<lparr>feedback := Some fb_e2e\<rparr>] \<rparr>"

subsection \<open>Measures used in the proofs\<close>

definition number_end :: "jsstring \<Rightarrow> bool" where
  "number_end t =
     (t = [] \<or> (\<not> is_digit (hd t) \<and> hd t \<noteq> 0x2E \<and> hd t \<noteq> 0x65 \<and> hd t \<noteq> 0x45))"

text \<open>The unsigned part of a printed number, read back.\<close>

definition magnitude_str :: "rat \<Rightarrow> jsstring" where
  "magnitude_str a =
     nat_str (nat \<lfloor>a\<rfloor>) @ (if frac a = 0 then [] else 0x2E # frac_str frac_digits_max (frac a))"

fun weight :: "json \<Rightarrow> nat"
  and weight_elems :: "json list \<Rightarrow> nat"
  and weight_members :: "(jsstring \<times> json) list \<Rightarrow> nat"
where
  "weight JNull = 1"
| "weight (JBool b) = 1"
| "weight (JNum x) = 1"
| "weight (JStr s) = 1"
| "weight (JArr vs) = Suc (weight_elems vs)"
| "weight (JObj kvs) = Suc (weight_members kvs)"
| "weight_elems [] = 0"
| "weight_elems (v # vs) = Suc (weight v + weight_elems vs)"
| "weight_members [] = 0"
| "weight_members ((k, v) # kvs) = Suc (weight v + weight_members kvs)"

definition value_end :: "jsstring \<Rightarrow> bool" where
  "value_end t = (t = [] \<or> hd t = 0x2C \<or> hd t = 0x5D \<or> hd t = 0x7D)"

section \<open>Evaluation lemmas\<close>

lemma asc_Nil [simp]: "asc [] = []"
  by (simp add: asc_def)

lemma asc_Cons [simp]: "asc (c # cs) = of_nat (of_char c) # asc cs"
  by (simp add: asc_def)

lemma num_str_of_nat: "num_str (of_nat n) = nat_str n"
  by (simp add: num_str_def)

lemma num_str_numeral: "num_str (numeral k) = nat_str (numeral k)"
  using num_str_of_nat [of "numeral k"] by simp

lemma num_str_0: "num_str 0 = nat_str 0"
  using num_str_of_nat [of 0] by simp

lemma num_str_1: "num_str 1 = nat_str 1"
  using num_str_of_nat [of 1] by simp

lemmas num_str_eval = num_str_numeral num_str_0 num_str_1 nat_str.simps

section \<open>The signal deriver: engagement and scaffolding\<close>

lemma deriveSignals_engagement:
  "needsMoreEngagement (deriveSignals prof fb n) =
     ((case fb of None \<Rightarrow> 0 | Some f \<Rightarrow> (case excitedCount f of None \<Rightarrow> 0 | Some e \<Rightarrow> e))
        / max 1 (case prof of None \<Rightarrow> 0 | Some p \<Rightarrow> numStudents p) < 1 / 2)"
  by (simp add: deriveSignals_def or_num_def Let_def)

lemma deriveSignals_scaffold:
  "needsMoreScaffold (deriveSignals prof fb n) =
     (\<exists>f. fb = Some f \<and> (digestible f = Some (asc ''some'') \<or> digestible f = Some (asc ''no'')))"
  by (auto simp add: deriveSignals_def Let_def split: option.splits)

text \<open>
  Claim C3, as stated: with \<open>numStudents = 0\<close> the signal \<open>needsMoreEngagement\<close> is true
  whatever \<open>excitedCount\<close> is. The code divides by \<^verbatim>\<open>Math.max(1, groupSize)\<close>, so with no
  students the ratio is \<open>excitedCount / 1\<close>, and three excited students give a ratio of 3.
\<close>

theorem engagement_no_students_counterexample:
  "\<not> needsMoreEngagement
       (deriveSignals (Some (newEmptyProfile\<lparr>numStudents := 0\<rparr>))
          (Some (defaultFeedback\<lparr>excitedCount := Some 3\<rparr>)) 1)"
  by (simp add: deriveSignals_engagement)

text \<open>
  Claim C3, amended: with \<open>numStudents = 0\<close> the signal \<open>needsMoreEngagement\<close> is true
  exactly when the feedback is absent, its \<open>excitedCount\<close> is absent, or its
  \<open>excitedCount\<close> is below one half (for a whole number: zero or less).
\<close>

theorem engagement_no_students:
  "numStudents p = 0 \<Longrightarrow>
   needsMoreEngagement (deriveSignals (Some p) fb n) =
     (case fb of None \<Rightarrow> True
      | Some f \<Rightarrow> (case excitedCount f of None \<Rightarrow> True | Some e \<Rightarrow> e < 1 / 2))"
  by (simp add: deriveSignals_engagement split: option.splits)

theorem engagement_no_students_witness:
  "numStudents (newEmptyProfile\<lparr>numStudents := 0\<rparr>) = 0 \<and>
   needsMoreEngagement
     (deriveSignals (Some (newEmptyProfile\<lparr>numStudents := 0\<rparr>))
        (Some (defaultFeedback\<lparr>excitedCount := Some 0\<rparr>)) 1) \<and>
   needsMoreEngagement (deriveSignals (Some (newEmptyProfile\<lparr>numStudents := 0\<rparr>)) None 1)"
  using engagement_no_students [of "newEmptyProfile\<lparr>numStudents := 0\<rparr>"
      "Some (defaultFeedback\<lparr>excitedCount := Some 0\<rparr>)" 1]
    engagement_no_students [of "newEmptyProfile\<lparr>numStudents := 0\<rparr>" None 1]
  by simp

text \<open>
  Claim C8: \<open>needsMoreScaffold\<close> is true if and only if a feedback record is present and its
  \<open>digestible\<close> field is "some" or "no"; so it is false for "yes", for an absent field
  and for an absent record.
\<close>

theorem scaffold_iff_digestible:
  "needsMoreScaffold (deriveSignals prof fb n) =
     (\<exists>f. fb = Some f \<and> (digestible f = Some (asc ''some'') \<or> digestible f = Some (asc ''no'')))"
  by (rule deriveSignals_scaffold)

theorem scaffold_iff_digestible_witness:
  "needsMoreScaffold (deriveSignals (Some robotics) (Some fb_e2e) 2) \<and>
   \<not> needsMoreScaffold (deriveSignals (Some robotics) None 2) \<and>
   \<not> needsMoreScaffold
       (deriveSignals (Some robotics) (Some (defaultFeedback\<lparr>digestible := Some (asc ''yes'')\<rparr>)) 2) \<and>
   \<not> needsMoreScaffold (deriveSignals (Some robotics) (Some defaultFeedback) 2)"
  using scaffold_iff_digestible [of "Some robotics" "Some fb_e2e" 2]
    scaffold_iff_digestible [of "Some robotics" None 2]
    scaffold_iff_digestible
      [of "Some robotics" "Some (defaultFeedback\<lparr>digestible := Some (asc ''yes'')\<rparr>)" 2]
    scaffold_iff_digestible [of "Some robotics" "Some defaultFeedback" 2]
  by (simp add: fb_e2e_def defaultFeedback_def)

section \<open>The template filler: the agenda and determinism\<close>

lemma timing_agenda_spec: "timing h = agenda_spec h"
  by (simp add: timing_def agenda_spec_def Math_round_def round_def)

lemma makePlanMarkdown_agenda:
  "makePlanMarkdown p fb n = plan_with_agenda p fb n (timing (or_num (sessionLengthHours p) 1))"
  by (simp add: makePlanMarkdown_def plan_with_agenda_def Let_def)

lemma agenda_one_hour:
  "agenda_spec 1 =
     [asc ''Warm-up & Engagement '' @ [emdash] @ asc '' 10 min'',
      asc ''Mini-Lesson '' @ [emdash] @ asc '' 15 min'',
      asc ''Guided Practice '' @ [emdash] @ asc '' 15 min'',
      asc ''Project/Application '' @ [emdash] @ asc '' 15 min'',
      asc ''Share & Reflect '' @ [emdash] @ asc '' 5 min'']"
  by (simp add: agenda_spec_def minutes_def num_str_eval)

lemma round_whole: "round (of_nat k * numeral m :: rat) = int k * numeral m"
proof -
  have "(of_nat k * numeral m :: rat) = of_int (int k * numeral m)"
    by simp
  then show ?thesis
    by (metis round_of_int)
qed






section \<open>The generation guards\<close>

lemma find_Some_id: "find (\<lambda>r. id_run r = a) rs = Some r \<Longrightarrow> r \<in> set rs \<and> id_run r = a"
  by (auto simp: find_Some_iff)

lemma distinct_ids_eq:
  "distinct (map id_run rs) \<Longrightarrow> r \<in> set rs \<Longrightarrow> r' \<in> set rs \<Longrightarrow> id_run r = id_run r' \<Longrightarrow> r = r'"
  by (meson distinct_map inj_onD)

lemma generate_refused_when_full:
  assumes "active_run st = Some r" "profile r = Some p"
    and "totalSessions p = of_nat (length (sessions r))" "0 < totalSessions p"
  shows "handle (GenerateNextPlan now) st =
           (st, [if subject p = [] then alert_subject else alert_all_generated])"
  using assms by (simp add: generateNextPlan_def or_num_def Let_def)

lemma generate_keeps_within_total:
  assumes d: "distinct (map id_run (runs st))"
    and inv: "\<forall>r \<in> set (runs st). within_total r"
  shows "\<forall>r \<in> set (runs (fst (handle (GenerateNextPlan now) st))). within_total r"
proof (cases "active_run st")
  case None
  then have "\<forall>r \<in> set (runs st). id_run r \<noteq> activeId st"
    by (auto simp: active_run_def find_None_iff)
  then have "map (\<lambda>r. if id_run r = activeId st then r\<lparr>sessions := sessions r @ [x]\<rparr> else r)
      (runs st) = runs st" for x
    by (simp add: map_idI)
  with inv None show ?thesis
    by (simp add: generateNextPlan_def Let_def)
next
  case (Some run)
  then have run: "run \<in> set (runs st)" "id_run run = activeId st"
    using find_Some_id by (auto simp: active_run_def)
  have only: "r = run" if "r \<in> set (runs st)" "id_run r = activeId st" for r
    using distinct_ids_eq [OF d that(1) run(1)] that(2) run(2) by simp
  show ?thesis
  proof (cases "profile run")
    case None
    with inv Some only show ?thesis
      by (auto simp: generateNextPlan_def Let_def within_total_def)
  next
    case (Some p)
    with inv \<open>active_run st = Some run\<close> only show ?thesis
      by (auto simp: generateNextPlan_def Let_def within_total_def not_less)
  qed
qed




text \<open>
  Claim C9: for a run whose profile has an empty subject, a requested generation is
  refused with the alert and the state, hence the session list of the run, is unchanged.
\<close>

theorem generate_refused_empty_subject:
  "active_run st = Some r \<Longrightarrow> profile r = Some p \<Longrightarrow> subject p = [] \<Longrightarrow>
     handle (GenerateNextPlan now) st = (st, [alert_subject])"
  by (simp add: generateNextPlan_def)

theorem generate_refused_empty_subject_witness:
  "handle (GenerateNextPlan t1) st_blank = (st_blank, [alert_subject])"
  using generate_refused_empty_subject [of st_blank run_blank newEmptyProfile t1]
  by (simp add: st_blank_def run_blank_def newEmptyProfile_def active_run_def)

section \<open>Feedback submission\<close>

lemma extends_run_iff:
  "extends_run r r' \<longleftrightarrow>
     length (sessions r) \<le> length (sessions r') \<and>
     (\<forall>i < length (sessions r).
        same_plan (sessions r ! i) (sessions r' ! i) \<and>
        (Suc i < length (sessions r) \<longrightarrow> feedback (sessions r' ! i) = feedback (sessions r ! i)))"
proof -
  have a: "length (sessions r) \<le> length (sessions r') \<Longrightarrow>
      list_all2 same_plan (sessions r) (take (length (sessions r)) (sessions r')) \<longleftrightarrow>
      (\<forall>i < length (sessions r). same_plan (sessions r ! i) (sessions r' ! i))"
    by (simp add: list_all2_conv_all_nth)
  have b: "length (sessions r) \<le> length (sessions r') \<Longrightarrow>
      map feedback (butlast (sessions r)) = take (length (sessions r) - 1) (map feedback (sessions r')) \<longleftrightarrow>
      (\<forall>i. Suc i < length (sessions r) \<longrightarrow> feedback (sessions r' ! i) = feedback (sessions r ! i))"
    by (auto simp: list_eq_iff_nth_eq nth_butlast)
  show ?thesis
    unfolding extends_run_def using a b by (auto simp: Suc_lessD)
qed

lemma extends_run_refl: "extends_run r r"
  by (simp add: extends_run_iff same_plan_def)

lemma extends_run_trans: "extends_run a b \<Longrightarrow> extends_run b c \<Longrightarrow> extends_run a c"
  unfolding extends_run_iff same_plan_def
  by (auto; (metis less_le_trans)?)

lemma find_map_id:
  "(\<And>r. id_run (g r) = id_run r) \<Longrightarrow>
     find (\<lambda>r. id_run r = i) (map g rs) = map_option g (find (\<lambda>r. id_run r = i) rs)"
  by (induction rs) auto


lemma extends_run_append: "extends_run r (r\<lparr>sessions := sessions r @ [x]\<rparr>)"
  by (simp add: extends_run_iff same_plan_def nth_append)


lemma enumerate_update_last:
  assumes ne: "xs \<noteq> []"
  shows "map (\<lambda>(i, s). if i = length xs - 1 then f s else s) (enumerate 0 xs) =
         butlast xs @ [f (last xs)]"
proof (rule nth_equalityI)
  show "length (map (\<lambda>(i, s). if i = length xs - 1 then f s else s) (enumerate 0 xs)) =
        length (butlast xs @ [f (last xs)])"
    using ne by (simp add: Suc_leI)
next
  fix i
  assume "i < length (map (\<lambda>(i, s). if i = length xs - 1 then f s else s) (enumerate 0 xs))"
  then have i: "i < length xs"
    by simp
  show "map (\<lambda>(i, s). if i = length xs - 1 then f s else s) (enumerate 0 xs) ! i =
        (butlast xs @ [f (last xs)]) ! i"
    using i ne by (auto simp: nth_enumerate_eq nth_append nth_butlast last_conv_nth)
qed

lemma enumerate_update_last':
  "xs \<noteq> [] \<Longrightarrow>
   map (\<lambda>(i, s). if i = length xs - Suc 0 then f s else s) (enumerate 0 xs) =
     butlast xs @ [f (last xs)]"
  using enumerate_update_last [of xs f] by simp

lemma extends_run_feedback_last:
  assumes "sessions r \<noteq> []"
  shows "extends_run r (r\<lparr>sessions := butlast (sessions r) @ [(last (sessions r))\<lparr>feedback := x\<rparr>]\<rparr>)"
  using assms
  by (auto simp: extends_run_iff same_plan_def nth_append nth_butlast last_conv_nth not_less
      dest: le_antisym)

lemma saveProfile_lookup:
  "lookup_run i (saveProfile snap pend) =
     map_option (\<lambda>r. if id_run r = activeId snap then r\<lparr>profile := Some (profile_st snap)\<rparr> else r)
       (lookup_run i pend)"
  by (simp add: lookup_run_def saveProfile_def find_map_id)

lemma generate_lookup:
  "\<exists>g. (\<forall>r. extends_run r (g r)) \<and>
       lookup_run i (fst (generateNextPlan now snap pend)) = map_option g (lookup_run i pend)"
proof (cases "runs (fst (generateNextPlan now snap pend)) = runs pend")
  case True
  then have "lookup_run i (fst (generateNextPlan now snap pend)) = map_option (\<lambda>r. r) (lookup_run i pend)"
    by (simp add: lookup_run_def option.map_ident)
  then show ?thesis
    by (intro exI [of _ "\<lambda>r. r"]) (simp add: extends_run_refl)
next
  case False
  then obtain x where x: "runs (fst (generateNextPlan now snap pend)) =
      map (\<lambda>r. if id_run r = activeId snap then r\<lparr>sessions := sessions r @ [x]\<rparr> else r) (runs pend)"
    by (auto simp: generateNextPlan_def Let_def split: if_splits)
  let ?g = "\<lambda>r. if id_run r = activeId snap then r\<lparr>sessions := sessions r @ [x]\<rparr> else r"
  have "lookup_run i (fst (generateNextPlan now snap pend)) = map_option ?g (lookup_run i pend)"
    by (simp add: lookup_run_def x find_map_id)
  moreover have "\<forall>r. extends_run r (?g r)"
    by (simp add: extends_run_append extends_run_refl)
  ultimately show ?thesis
    by (intro exI [of _ ?g]) simp
qed

lemma generate_still_extends:
  assumes "still_extends r (lookup_run i pend)"
  shows "still_extends r (lookup_run i (fst (generateNextPlan now snap pend)))"
proof -
  obtain g where g: "\<forall>r. extends_run r (g r)"
    "lookup_run i (fst (generateNextPlan now snap pend)) = map_option g (lookup_run i pend)"
    using generate_lookup by blast
  show ?thesis
    using assms g extends_run_trans
    by (auto simp: still_extends_def split: option.splits)
qed

lemma submit_still_extends:
  assumes "lookup_run i st = Some r"
  shows "still_extends r (lookup_run i (fst (submitFeedbackAndGenerate now st)))"
proof (cases "active_run st")
  case None
  with assms show ?thesis
    by (simp add: submitFeedbackAndGenerate_def still_extends_def extends_run_refl)
next
  case (Some run)
  show ?thesis
  proof (cases "sessions run = []")
    case True
    with Some assms show ?thesis
      by (simp add: submitFeedbackAndGenerate_def still_extends_def extends_run_refl)
  next
    case False
    let ?upd = "run\<lparr>sessions := butlast (sessions run) @ [(last (sessions run))\<lparr>feedback := Some (feedback_st st)\<rparr>]\<rparr>"
    let ?g = "\<lambda>r. if id_run r = activeId st then ?upd else r"
    let ?pend = "st\<lparr>runs := map ?g (runs st), feedback_st := defaultFeedback\<rparr>"
    have run_id: "id_run run = activeId st"
      using Some find_Some_id by (auto simp: active_run_def)
    have eq: "submitFeedbackAndGenerate now st = generateNextPlan now st ?pend"
      using Some False
      by (simp add: submitFeedbackAndGenerate_def Let_def enumerate_update_last' cong: if_cong)
    have "lookup_run i ?pend = map_option ?g (lookup_run i st)"
      using run_id by (simp add: lookup_run_def find_map_id)
    then have lk: "lookup_run i ?pend = Some (?g r)"
      using assms by simp
    have "extends_run r (?g r)"
    proof (cases "id_run r = activeId st")
      case True
      then have "i = activeId st"
        using assms find_Some_id by (auto simp: lookup_run_def)
      then have "r = run"
        using assms Some by (simp add: lookup_run_def active_run_def)
      then show ?thesis
        using True False extends_run_feedback_last by simp
    next
      case False
      then show ?thesis
        by (simp add: extends_run_refl)
    qed
    then have "still_extends r (lookup_run i ?pend)"
      using lk by (simp add: still_extends_def)
    then show ?thesis
      unfolding eq by (rule generate_still_extends)
  qed
qed


lemma e2e_states:
  "runs (run_events [GenerateNextPlan t1, SetFeedback fb_e2e, SubmitFeedback t2] st_e2e) =
     [\<lparr> id_run = asc ''r1'', profile = Some robotics,
        sessions = [(makePlan t1 robotics None 1)\<lparr>feedback := Some fb_e2e\<rparr>,
                    makePlan t2 robotics None 2] \<rparr>]"
  by (simp add: st_e2e_def generateNextPlan_def submitFeedbackAndGenerate_def active_run_def
      or_num_def Let_def robotics_def newEmptyProfile_def last_feedback_def makePlan_def
      numeral_2_eq_2)

lemma e2e_third_refused:
  "snd (handle (GenerateNextPlan t3)
          (run_events [GenerateNextPlan t1, SetFeedback fb_e2e, SubmitFeedback t2] st_e2e)) =
     [alert_all_generated]"
  by (simp add: st_e2e_def generateNextPlan_def submitFeedbackAndGenerate_def active_run_def
      or_num_def Let_def robotics_def newEmptyProfile_def last_feedback_def makePlan_def)

lemma e2e_plans_differ:
  "makePlanMarkdown robotics None 2 \<noteq> makePlanMarkdown robotics (Some fb_e2e) 2"
  by (simp add: makePlanMarkdown_def deriveSignals_def Let_def fb_e2e_def defaultFeedback_def
      robotics_def newEmptyProfile_def or_num_def or_str_def header_def
      warmup_def teach_def block_def)

text \<open>
  The plan texts that a submission leaves do not depend on the feedback submitted: the
  plan that it generates is made from the feedback that the latest session had before.
\<close>

lemma active_run_feedback_st [simp]: "active_run (st\<lparr>feedback_st := f\<rparr>) = active_run st"
  by (simp add: active_run_def)

lemma generate_plan_texts:
  "map (\<lambda>r. map planMd (sessions r)) (runs (fst (generateNextPlan now snap pend))) =
     (if subject (case active_run snap of None \<Rightarrow> profile_st snap
                  | Some r \<Rightarrow> (case profile r of None \<Rightarrow> profile_st snap | Some p \<Rightarrow> p)) = [] \<or>
         of_nat ((case active_run snap of None \<Rightarrow> 0 | Some r \<Rightarrow> length (sessions r)) + 1) >
           or_num (totalSessions (case active_run snap of None \<Rightarrow> profile_st snap
                  | Some r \<Rightarrow> (case profile r of None \<Rightarrow> profile_st snap | Some p \<Rightarrow> p))) 1
      then map (\<lambda>r. map planMd (sessions r)) (runs pend)
      else map (\<lambda>r. if id_run r = activeId snap
                      then map planMd (sessions r) @
                        [makePlanMarkdown
                           (case active_run snap of None \<Rightarrow> profile_st snap
                            | Some r \<Rightarrow> (case profile r of None \<Rightarrow> profile_st snap | Some p \<Rightarrow> p))
                           (last_feedback (active_run snap))
                           ((case active_run snap of None \<Rightarrow> 0 | Some r \<Rightarrow> length (sessions r)) + 1)]
                      else map planMd (sessions r)) (runs pend))"
  by (simp add: generateNextPlan_def Let_def makePlan_def)

lemma submit_plan_texts_ignore_feedback:
  "map (\<lambda>r. map planMd (sessions r)) (runs (fst (submitFeedbackAndGenerate now (st\<lparr>feedback_st := f\<rparr>)))) =
   map (\<lambda>r. map planMd (sessions r)) (runs (fst (submitFeedbackAndGenerate now (st\<lparr>feedback_st := g\<rparr>))))"
proof (cases "active_run st")
  case None
  then show ?thesis
    by (simp add: submitFeedbackAndGenerate_def)
next
  case (Some run)
  show ?thesis
  proof (cases "sessions run = []")
    case True
    with Some show ?thesis
      by (simp add: submitFeedbackAndGenerate_def)
  next
    case False
    have last_only: "map planMd (butlast (sessions run) @ [last (sessions run)]) =
        map planMd (sessions run)"
      using False by simp
    have "map planMd (butlast (sessions run) @ [(last (sessions run))\<lparr>feedback := x\<rparr>]) =
        map planMd (butlast (sessions run) @ [last (sessions run)])" for x
      by simp
    then have texts: "map planMd (butlast (sessions run) @ [(last (sessions run))\<lparr>feedback := x\<rparr>]) =
        map planMd (sessions run)" for x
      using last_only by (simp only:)
    show ?thesis
      using Some False
      by (simp add: submitFeedbackAndGenerate_def Let_def enumerate_update_last' generate_plan_texts
          texts comp_def cong: if_cong option.case_cong)
  qed
qed

text \<open>
  Claim C1, on the end-to-end scenario of the specification. The feedback is attached to
  session 1 and session 2 is generated, but \<open>generateNextPlan\<close> reads \<^verbatim>\<open>runs\<close> of the
  render in which the button was clicked, where session 1 has no feedback yet: the plan
  of session 2 is made from no feedback, its \<open>needsMoreScaffold\<close> is false, and its text is
  not the text that the recorded feedback gives. The third generation is refused.
\<close>

theorem submit_feedback_uses_stale_feedback:
  "runs (run_events [GenerateNextPlan t1, SetFeedback fb_e2e, SubmitFeedback t2] st_e2e) =
     [\<lparr> id_run = asc ''r1'', profile = Some robotics,
        sessions = [(makePlan t1 robotics None 1)\<lparr>feedback := Some fb_e2e\<rparr>,
                    makePlan t2 robotics None 2] \<rparr>] \<and>
   planMd (makePlan t2 robotics None 2) \<noteq> makePlanMarkdown robotics (Some fb_e2e) 2 \<and>
   \<not> needsMoreScaffold (deriveSignals (Some robotics) None 2) \<and>
   needsMoreScaffold (deriveSignals (Some robotics) (Some fb_e2e) 2) \<and>
   snd (handle (GenerateNextPlan t3)
          (run_events [GenerateNextPlan t1, SetFeedback fb_e2e, SubmitFeedback t2] st_e2e)) =
     [alert_all_generated]"
proof (intro conjI)
  show "planMd (makePlan t2 robotics None 2) \<noteq> makePlanMarkdown robotics (Some fb_e2e) 2"
    using e2e_plans_differ by (simp add: makePlan_def)
  show "\<not> needsMoreScaffold (deriveSignals (Some robotics) None 2)"
    by (simp add: deriveSignals_scaffold)
  show "needsMoreScaffold (deriveSignals (Some robotics) (Some fb_e2e) 2)"
    by (simp add: deriveSignals_scaffold fb_e2e_def)
qed (rule e2e_states e2e_third_refused)+


section \<open>Session records through sequences of events\<close>

lemma lookup_run_None: "lookup_run i st = None \<longleftrightarrow> i \<notin> run_ids st"
  by (auto simp: lookup_run_def run_ids_def find_None_iff)

lemma ids_map_id: "(\<And>r. id_run (g r) = id_run r) \<Longrightarrow> id_run ` set (map g rs) = id_run ` set rs"
  by (simp add: image_image)

lemma generate_runs_cases:
  "runs (fst (generateNextPlan now snap pend)) = runs pend \<or>
   (\<exists>x. runs (fst (generateNextPlan now snap pend)) =
      map (\<lambda>r. if id_run r = activeId snap then r\<lparr>sessions := sessions r @ [x]\<rparr> else r)
        (runs pend))"
proof (cases "runs (fst (generateNextPlan now snap pend)) = runs pend")
  case True
  then show ?thesis by simp
next
  case False
  then obtain x where "runs (fst (generateNextPlan now snap pend)) =
      map (\<lambda>r. if id_run r = activeId snap then r\<lparr>sessions := sessions r @ [x]\<rparr> else r) (runs pend)"
    by (auto simp: generateNextPlan_def Let_def split: if_splits)
  then show ?thesis by blast
qed

lemma generate_ids: "run_ids (fst (generateNextPlan now snap pend)) = run_ids pend"
proof -
  consider (same) "runs (fst (generateNextPlan now snap pend)) = runs pend"
    | (app) x where "runs (fst (generateNextPlan now snap pend)) =
        map (\<lambda>r. if id_run r = activeId snap then r\<lparr>sessions := sessions r @ [x]\<rparr> else r)
          (runs pend)"
    using generate_runs_cases by blast
  then show ?thesis
  proof cases
    case same
    then show ?thesis by (simp add: run_ids_def)
  next
    case app
    show ?thesis
      unfolding run_ids_def app by (rule ids_map_id) simp
  qed
qed

lemma submit_ids: "run_ids (fst (submitFeedbackAndGenerate now st)) = run_ids st"
proof (cases "active_run st")
  case None
  then show ?thesis
    by (simp add: submitFeedbackAndGenerate_def)
next
  case (Some run)
  then have run_id: "id_run run = activeId st"
    using find_Some_id by (auto simp: active_run_def)
  have m: "id_run ` set (map (\<lambda>r. if id_run r = activeId st then run\<lparr>sessions := xs\<rparr> else r) rs) =
      id_run ` set rs" for xs and rs :: "ClassRun list"
    by (rule ids_map_id) (simp add: run_id)
  show ?thesis
  proof (cases "sessions run = []")
    case True
    with Some show ?thesis
      by (simp add: submitFeedbackAndGenerate_def)
  next
    case False
    obtain xs where "submitFeedbackAndGenerate now st =
        generateNextPlan now st
          (st\<lparr>runs := map (\<lambda>r. if id_run r = activeId st then run\<lparr>sessions := xs\<rparr> else r) (runs st),
             feedback_st := defaultFeedback\<rparr>)"
      using Some False by (simp add: submitFeedbackAndGenerate_def Let_def)
    then show ?thesis
      using m [of xs "runs st"] by (simp add: generate_ids) (simp add: run_ids_def)
  qed
qed

lemma deleteRun_runs:
  "runs (deleteRun j c st) = (if c then filter (\<lambda>r. id_run r \<noteq> j) (runs st) else runs st)"
  by (simp add: deleteRun_def Let_def split: list.splits)

lemma handle_ids:
  "run_ids (fst (handle ev st)) \<subseteq> run_ids st \<union> (case ev of NewClassRun u \<Rightarrow> {u} | _ \<Rightarrow> {})"
proof (cases ev)
  case (GenerateNextPlan now)
  then show ?thesis by (simp add: generate_ids)
next
  case (SubmitFeedback now)
  then show ?thesis by (simp add: submit_ids)
next
  case SaveProfile
  have "id_run ` set (map (\<lambda>r. if id_run r = a then r\<lparr>profile := x\<rparr> else r) rs) = id_run ` set rs"
    for a x and rs :: "ClassRun list"
    by (rule ids_map_id) simp
  then have "run_ids (saveProfile st st) = run_ids st"
    unfolding run_ids_def saveProfile_def by (simp del: set_map map_eq_conv)
  with SaveProfile show ?thesis by simp
next
  case (SetProfile p)
  then show ?thesis by (simp add: run_ids_def)
next
  case (SetFeedback f)
  then show ?thesis by (simp add: run_ids_def)
next
  case (SelectRun k)
  then show ?thesis by (simp add: run_ids_def selectRun_def)
next
  case (NewClassRun u)
  then show ?thesis by (auto simp: run_ids_def newClassRun_def Let_def)
next
  case (DeleteRun j c)
  then show ?thesis
    by (auto simp: run_ids_def deleteRun_runs)
qed

lemma find_filter_ne:
  "find (\<lambda>r. id_run r = i) (filter (\<lambda>r. id_run r \<noteq> j) rs) =
     (if i = j then None else find (\<lambda>r. id_run r = i) rs)"
  by (induction rs) auto

lemma deleteRun_lookup:
  "lookup_run i (deleteRun j c st) =
     (if c \<and> i = j then None else lookup_run i st)"
  by (simp add: lookup_run_def deleteRun_runs find_filter_ne)

lemma handle_still_extends:
  assumes r: "lookup_run i st = Some r" and fresh: "ev \<noteq> NewClassRun i"
  shows "still_extends r (lookup_run i (fst (handle ev st)))"
proof (cases ev)
  case (GenerateNextPlan now)
  have "still_extends r (lookup_run i st)"
    using r by (simp add: still_extends_def extends_run_refl)
  then show ?thesis
    unfolding GenerateNextPlan handle.simps by (rule generate_still_extends)
next
  case (SubmitFeedback now)
  then show ?thesis using r by (simp add: submit_still_extends)
next
  case SaveProfile
  then show ?thesis
    using r by (simp add: saveProfile_lookup still_extends_def extends_run_iff same_plan_def)
next
  case (SetProfile p)
  then show ?thesis
    using r by (simp add: lookup_run_def still_extends_def extends_run_refl)
next
  case (SetFeedback f)
  then show ?thesis
    using r by (simp add: lookup_run_def still_extends_def extends_run_refl)
next
  case (SelectRun k)
  then show ?thesis
    using r by (simp add: lookup_run_def selectRun_def still_extends_def extends_run_refl)
next
  case (NewClassRun u)
  then show ?thesis
    using r fresh by (simp add: lookup_run_def newClassRun_def Let_def still_extends_def extends_run_refl)
next
  case (DeleteRun j c)
  then show ?thesis
    using r by (simp add: deleteRun_lookup still_extends_def extends_run_refl)
qed

lemma handle_still_absent:
  assumes "lookup_run i st = None" "ev \<noteq> NewClassRun i"
  shows "lookup_run i (fst (handle ev st)) = None"
  using assms handle_ids [of ev st]
  by (auto simp: lookup_run_None split: event.splits)

lemma run_events_still_extends:
  "fresh_ids used evs \<Longrightarrow> run_ids st \<subseteq> set used \<Longrightarrow> i \<in> set used \<Longrightarrow>
     still_extends r (lookup_run i st) \<Longrightarrow>
     still_extends r (lookup_run i (run_events evs st))"
proof (induction evs arbitrary: st used)
  case Nil
  then show ?case by simp
next
  case (Cons ev evs)
  have ne: "ev \<noteq> NewClassRun i"
    using Cons.prems(1,3) by auto
  have step: "still_extends r (lookup_run i (fst (handle ev st)))"
  proof (cases "lookup_run i st")
    case None
    then show ?thesis
      using handle_still_absent [OF None ne] by (simp add: still_extends_def)
  next
    case (Some r1)
    then have "extends_run r r1"
      using Cons.prems(4) by (simp add: still_extends_def)
    moreover have "still_extends r1 (lookup_run i (fst (handle ev st)))"
      using handle_still_extends [OF Some ne] .
    ultimately show ?thesis
      using extends_run_trans by (auto simp: still_extends_def split: option.splits)
  qed
  show ?case
  proof (cases "\<exists>u. ev = NewClassRun u")
    case True
    then obtain u where u: "ev = NewClassRun u" by blast
    have "run_ids (fst (handle ev st)) \<subseteq> set (u # used)"
      using handle_ids [of ev st] Cons.prems(2) u by auto
    moreover have "fresh_ids (u # used) evs" "i \<in> set (u # used)"
      using Cons.prems(1,3) u by auto
    ultimately show ?thesis
      using Cons.IH [of "u # used" "fst (handle ev st)"] step by simp
  next
    case False
    then have "run_ids (fst (handle ev st)) \<subseteq> set used"
      using handle_ids [of ev st] Cons.prems(2) by (cases ev) auto
    moreover have "fresh_ids used evs"
      using Cons.prems(1) False by (cases ev) auto
    ultimately show ?thesis
      using Cons.IH [of used "fst (handle ev st)"] step Cons.prems(3) by simp
  qed
qed


text \<open>
  Claim C6, as stated: the feedback of a record is written at most once. A submission
  writes the feedback of the latest record of the run; when no further plan is generated
  (here all sessions of the run exist), the record stays the latest, and the next
  submission overwrites its feedback.
\<close>

theorem feedback_overwritten_counterexample:
  "map feedback (sessions (hd (runs
      (run_events [SetFeedback fb_e2e, SubmitFeedback t2] st_full)))) = [Some fb_e2e] \<and>
   map feedback (sessions (hd (runs
      (run_events [SetFeedback fb_e2e, SubmitFeedback t2, SetFeedback fb_other, SubmitFeedback t3]
         st_full)))) = [Some fb_other] \<and>
   fb_e2e \<noteq> fb_other"
  by (simp add: st_full_def run_full_def generateNextPlan_def submitFeedbackAndGenerate_def
      active_run_def or_num_def Let_def robotics1_def robotics_def newEmptyProfile_def
      last_feedback_def makePlan_def fb_e2e_def fb_other_def defaultFeedback_def)


text \<open>
  Claim C6, amended: through every sequence of events whose new identifiers are fresh, a
  session record of a run keeps its place, its \<open>sessionNumber\<close>, its \<open>generatedAt\<close> and
  its \<open>planMd\<close> for as long as the run is not deleted, and keeps its feedback once a later
  record of the run exists; the feedback of the latest record is written by every
  submission.
\<close>

theorem session_records_kept:
  assumes "fresh_ids (map id_run (runs st)) evs" and "lookup_run i st = Some r"
  shows "\<forall>r'. lookup_run i (run_events evs st) = Some r' \<longrightarrow>
           length (sessions r) \<le> length (sessions r') \<and>
           (\<forall>k < length (sessions r).
              sessionNumber (sessions r' ! k) = sessionNumber (sessions r ! k) \<and>
              generatedAt (sessions r' ! k) = generatedAt (sessions r ! k) \<and>
              planMd (sessions r' ! k) = planMd (sessions r ! k) \<and>
              (Suc k < length (sessions r) \<longrightarrow>
                 feedback (sessions r' ! k) = feedback (sessions r ! k)))"
proof -
  have i: "i \<in> set (map id_run (runs st))"
    using assms(2) find_Some_id by (fastforce simp: lookup_run_def)
  have "still_extends r (lookup_run i st)"
    using assms(2) by (simp add: still_extends_def extends_run_refl)
  then have "still_extends r (lookup_run i (run_events evs st))"
    using run_events_still_extends [OF assms(1) _ i] by (simp add: run_ids_def)
  then show ?thesis
    by (auto simp: still_extends_def extends_run_iff same_plan_def)
qed

theorem session_records_kept_witness:
  "fresh_ids (map id_run (runs st_full))
     [SetFeedback fb_e2e, SubmitFeedback t2, NewClassRun (asc ''r2'')] \<and>
   lookup_run (asc ''r1'') st_full = Some run_full \<and>
   lookup_run (asc ''r1'')
     (run_events [SetFeedback fb_e2e, SubmitFeedback t2, NewClassRun (asc ''r2'')] st_full) =
     Some (run_full\<lparr>sessions := [(makePlan t1 robotics1 None 1)\<lparr>feedback := Some fb_e2e\<rparr>]\<rparr>) \<and>
   planMd (hd (sessions (run_full\<lparr>sessions := [(makePlan t1 robotics1 None 1)\<lparr>feedback := Some fb_e2e\<rparr>]\<rparr>))) =
     planMd (hd (sessions run_full))"
  using session_records_kept [of st_full "[SetFeedback fb_e2e, SubmitFeedback t2, NewClassRun (asc ''r2'')]"
      "asc ''r1''" run_full]
  by (simp add: st_full_def run_full_def generateNextPlan_def submitFeedbackAndGenerate_def
      active_run_def lookup_run_def or_num_def Let_def robotics1_def robotics_def
      newEmptyProfile_def last_feedback_def newClassRun_def)

section \<open>JSON texts: reading back what was printed\<close>

subsection \<open>Strings\<close>

lemma cons_result_Some [simp]: "cons_result x (Some (xs, r)) = Some (x # xs, r)"
  by (simp add: cons_result_def)

lemma parse_chars_close: "parse_chars (0x22 # cs) = Some ([], cs)"
  by (simp add: parse_chars.simps)

lemma parse_chars_escape:
  "unescape e = Some u \<Longrightarrow> e \<noteq> 0x75 \<Longrightarrow>
     parse_chars (0x5C # e # es) = cons_result u (parse_chars es)"
  by (simp add: parse_chars.simps)

lemma parse_chars_hex:
  "hex4 h1 h2 h3 h4 = Some u \<Longrightarrow>
     parse_chars (0x5C # 0x75 # h1 # h2 # h3 # h4 # r) = cons_result u (parse_chars r)"
  by (simp add: parse_chars.simps)

lemma parse_chars_plain:
  "c \<noteq> 0x22 \<Longrightarrow> c \<noteq> 0x5C \<Longrightarrow> \<not> c < 0x20 \<Longrightarrow>
     parse_chars (c # cs) = cons_result c (parse_chars cs)"
  by (simp add: parse_chars.simps)

lemma hexval_hexdigit: "d < 16 \<Longrightarrow> hexval (hexdigit d) = Some d"
  by (auto simp: hexval_def hexdigit_def Let_def unat_of_nat take_bit_nat_eq_self)

lemma nibbles:
  "n div 4096 * 4096 + n div 256 mod 16 * 256 + n div 16 mod 16 * 16 + n mod 16 = (n::nat)"
proof -
  have a: "n div 256 mod 16 = n mod 4096 div 256"
    using mod_mult2_eq [of n 256 16] by simp
  have b: "n div 16 mod 16 = n mod 256 div 16"
    using mod_mult2_eq [of n 16 16] by simp
  have c: "n mod 256 = n mod 256 div 16 * 16 + n mod 16"
    using mod_mult2_eq [of n 16 16] by simp
  have d: "n mod 4096 = n mod 4096 div 256 * 256 + n mod 256"
    using mod_mult2_eq [of n 256 16] by simp
  have "n = n div 4096 * 4096 + n mod 4096"
    by simp
  then show ?thesis
    using a b c d by linarith
qed

lemma hex4_nibbles:
  assumes "n < 65536"
  shows "hex4 (hexdigit (n div 4096)) (hexdigit (n div 256 mod 16))
           (hexdigit (n div 16 mod 16)) (hexdigit (n mod 16)) = Some (of_nat n)"
proof -
  have "n div 4096 < 16"
    using assms by simp
  then show ?thesis
    using nibbles [of n] by (simp add: hex4_def hexval_hexdigit)
qed

lemma unat_lt_65536: "unat (c :: 16 word) < 65536"
  using unsigned_less [of c, where 'a = nat] by simp

lemma parse_chars_uescape:
  "parse_chars (uescape c @ rest) = cons_result c (parse_chars rest)"
  using hex4_nibbles [OF unat_lt_65536 [of c]]
  by (simp add: uescape_def Let_def parse_chars_hex)

lemma parse_chars_quote_unit:
  "parse_chars (quote_unit c @ rest) = cons_result c (parse_chars rest)"
proof -
  consider "c = 0x08" | "c = 0x09" | "c = 0x0A" | "c = 0x0C" | "c = 0x0D" | "c = 0x22" | "c = 0x5C"
    | "c \<noteq> 0x08" "c \<noteq> 0x09" "c \<noteq> 0x0A" "c \<noteq> 0x0C" "c \<noteq> 0x0D" "c \<noteq> 0x22" "c \<noteq> 0x5C"
      "c < 0x20 \<or> is_high c \<or> is_low c"
    | "c \<noteq> 0x22" "c \<noteq> 0x5C" "\<not> c < 0x20" "\<not> (c < 0x20 \<or> is_high c \<or> is_low c)"
    by blast
  then show ?thesis
  proof cases
    case 8
    then show ?thesis
      by (simp add: quote_unit_def parse_chars_uescape)
  next
    case 9
    then have "quote_unit c = [c]"
      by (auto simp: quote_unit_def)
    then show ?thesis
      using 9 by (simp add: parse_chars_plain)
  qed (simp_all add: quote_unit_def parse_chars_escape unescape_def)
qed

lemma high_plain: "is_high c \<Longrightarrow> c \<noteq> 0x22 \<and> c \<noteq> 0x5C \<and> \<not> c < 0x20"
  by (auto simp: is_high_def word_le_nat_alt word_less_nat_alt)

lemma low_plain: "is_low c \<Longrightarrow> c \<noteq> 0x22 \<and> c \<noteq> 0x5C \<and> \<not> c < 0x20"
  by (auto simp: is_low_def word_le_nat_alt word_less_nat_alt)

lemma parse_chars_quote_units:
  "parse_chars (quote_units s @ 0x22 # rest) = Some (s, rest)"
proof (induction s rule: quote_units.induct)
  case 1
  then show ?case by (simp add: parse_chars_close)
next
  case (2 c)
  then show ?case by (simp add: parse_chars_quote_unit parse_chars_close)
next
  case (3 c d cs)
  show ?case
  proof (cases "is_high c \<and> is_low d")
    case True
    then have "parse_chars (quote_units cs @ 0x22 # rest) = Some (cs, rest)"
      using 3 by blast
    moreover have "quote_units (c # d # cs) = c # d # quote_units cs"
      using True by simp
    ultimately show ?thesis
      using high_plain [of c] low_plain [of d] True
      by (simp add: parse_chars_plain del: quote_units.simps)
  next
    case False
    then have "parse_chars (quote_units (d # cs) @ 0x22 # rest) = Some (d # cs, rest)"
      using 3 by blast
    moreover have "quote_units (c # d # cs) = quote_unit c @ quote_units (d # cs)"
      using False by auto
    ultimately show ?thesis
      by (simp add: parse_chars_quote_unit del: quote_units.simps)
  qed
qed

subsection \<open>Numbers\<close>

lemma unat_digit: "d < 10 \<Longrightarrow> unat (of_nat (48 + d) :: 16 word) = 48 + d"
  by (simp del: of_nat_add add: unat_of_nat)

lemma is_digit_of_nat: "d < 10 \<Longrightarrow> is_digit (of_nat (48 + d))"
  by (simp del: of_nat_add add: is_digit_def word_le_nat_alt unat_digit)

lemma digit_zero_iff: "d < 10 \<Longrightarrow> (of_nat (48 + d) :: 16 word) = 0x30 \<longleftrightarrow> d = 0"
proof
  assume d: "d < 10" and "(of_nat (48 + d) :: 16 word) = 0x30"
  then have "unat (of_nat (48 + d) :: 16 word) = unat (0x30 :: 16 word)"
    by (simp only:)
  then show "d = 0"
    using d by (simp only: unat_digit) simp
qed simp

lemma digit_not_minus: "is_digit c \<Longrightarrow> c \<noteq> 0x2D \<and> c \<noteq> 0x2E \<and> c \<noteq> 0x65 \<and> c \<noteq> 0x45"
  by (auto simp: is_digit_def)

lemma digits_val_snoc: "digits_val (ds @ [c]) = digits_val ds * 10 + (unat c - 48)"
  by (simp add: digits_val_def)

lemma foldl_digits:
  "foldl (\<lambda>a c. a * 10 + (unat c - 48)) a ds =
     a * 10 ^ length ds + foldl (\<lambda>a c. a * 10 + (unat c - 48)) 0 (ds :: jsstring)"
proof (induction ds arbitrary: a)
  case Nil
  then show ?case by simp
next
  case (Cons d ds)
  show ?case
    using Cons [of "a * 10 + (unat d - 48)"] Cons [of "unat d - 48"]
    by (simp add: algebra_simps)
qed

lemma digits_val_Cons: "digits_val (c # ds) = (unat c - 48) * 10 ^ length ds + digits_val ds"
  using foldl_digits [of "unat c - 48" ds] by (simp add: digits_val_def)

lemma nat_str_digits: "\<forall>c \<in> set (nat_str n). is_digit c"
proof (induction n rule: nat_str.induct)
  case (1 n)
  show ?case
  proof (cases "n < 10")
    case True
    then show ?thesis
      by (subst nat_str.simps) (simp del: of_nat_add add: is_digit_of_nat)
  next
    case False
    then show ?thesis
      using 1 by (subst nat_str.simps) (simp del: of_nat_add add: is_digit_of_nat)
  qed
qed

lemma nat_str_not_Nil: "nat_str n \<noteq> []"
  by (subst nat_str.simps) simp

lemma digits_val_nat_str: "digits_val (nat_str n) = n"
proof (induction n rule: nat_str.induct)
  case (1 n)
  show ?case
  proof (cases "n < 10")
    case True
    then show ?thesis
      by (subst nat_str.simps) (simp del: of_nat_add add: digits_val_def unat_digit)
  next
    case False
    then show ?thesis
      using 1 by (subst nat_str.simps) (simp del: of_nat_add add: digits_val_snoc unat_digit)
  qed
qed

lemma nat_str_hd: "0 < n \<Longrightarrow> hd (nat_str n) \<noteq> 0x30"
proof (induction n rule: nat_str.induct)
  case (1 n)
  show ?case
  proof (cases "n < 10")
    case True
    then show ?thesis
      using 1(2) by (subst nat_str.simps) (simp del: of_nat_add add: digit_zero_iff)
  next
    case False
    then have "hd (nat_str (n div 10)) \<noteq> 0x30"
      using 1 by simp
    then show ?thesis
      using False by (subst nat_str.simps) (simp add: nat_str_not_Nil)
  qed
qed

lemma nat_str_length: "1 < length (nat_str n) \<Longrightarrow> 0 < n"
  by (subst (asm) nat_str.simps) (auto split: if_splits)

lemma span_digits:
  assumes "\<forall>c \<in> set ds. is_digit c" "t = [] \<or> \<not> is_digit (hd t)"
  shows "takeWhile is_digit (ds @ t) = ds" "dropWhile is_digit (ds @ t) = t"
proof -
  have t: "takeWhile is_digit t = []" "dropWhile is_digit t = t"
    using assms(2) by (cases t; simp)+
  show "takeWhile is_digit (ds @ t) = ds" "dropWhile is_digit (ds @ t) = t"
    using assms(1) t by (simp_all add: takeWhile_append2 dropWhile_append2)
qed

lemma parse_int_part_nat_str:
  assumes "t = [] \<or> \<not> is_digit (hd t)"
  shows "parse_int_part (nat_str n @ t) = Some (n, t)"
  using span_digits [OF nat_str_digits assms, of n] nat_str_hd [of n] nat_str_length [of n]
  by (auto simp: parse_int_part_def Let_def nat_str_not_Nil digits_val_nat_str)

lemma floor10_digit:
  assumes "0 \<le> f" "f < (1::rat)"
  shows "nat \<lfloor>f * 10\<rfloor> < 10" "0 \<le> \<lfloor>f * 10\<rfloor>"
proof -
  have "f * 10 < of_int 10"
    using assms(2) by simp
  then have lt: "\<lfloor>f * 10\<rfloor> < 10"
    by (simp only: floor_less_iff)
  show ge: "0 \<le> \<lfloor>f * 10\<rfloor>"
    using assms(1) by simp
  show "nat \<lfloor>f * 10\<rfloor> < 10"
    using lt ge by linarith
qed

lemma frac_unit: "0 \<le> frac (x::rat)" "frac x < 1"
  by (simp_all add: frac_lt_1)

lemma frac_str_digits: "0 \<le> f \<Longrightarrow> f < 1 \<Longrightarrow> \<forall>c \<in> set (frac_str k f). is_digit c"
proof (induction k arbitrary: f)
  case 0
  then show ?case by simp
next
  case (Suc k)
  have "\<forall>c \<in> set (frac_str k (frac (f * 10))). is_digit c"
    using Suc.IH [OF frac_unit] .
  then show ?case
    using floor10_digit [OF Suc.prems] by (simp del: of_nat_add add: is_digit_of_nat)
qed

lemma frac_str_val:
  "0 \<le> f \<Longrightarrow> f < 1 \<Longrightarrow> f * 10 ^ k \<in> \<int> \<Longrightarrow>
     of_nat (digits_val (frac_str k f)) = f * 10 ^ length (frac_str k f)"
proof (induction k arbitrary: f)
  case 0
  then have "f \<in> \<int>" by simp
  then have "f = 0"
    using 0(1,2) by (metis Ints_cases of_int_0_le_iff of_int_less_1_iff order_antisym zless_add1_eq
        add_0 less_le_not_le of_int_0)
  then show ?case by (simp add: digits_val_def)
next
  case (Suc k)
  show ?case
  proof (cases "f = 0")
    case True
    then show ?thesis by (simp add: digits_val_def)
  next
    case False
    let ?d = "\<lfloor>f * 10\<rfloor>"
    let ?f' = "frac (f * 10)"
    have d: "nat ?d < 10" "0 \<le> ?d"
      using floor10_digit [OF Suc.prems(1,2)] .
    have "?f' * 10 ^ k = f * 10 ^ Suc k - of_int (?d * 10 ^ k)"
      by (simp add: frac_def algebra_simps)
    then have "?f' * 10 ^ k \<in> \<int>"
      using Suc.prems(3) by (simp only: Ints_diff Ints_of_int)
    then have ih: "of_nat (digits_val (frac_str k ?f')) = ?f' * 10 ^ length (frac_str k ?f')"
      using Suc.IH [OF frac_unit] by blast
    have split: "f * 10 = of_int ?d + ?f'"
      by (simp add: frac_def)
    have "digits_val (frac_str (Suc k) f) =
        nat ?d * 10 ^ length (frac_str k ?f') + digits_val (frac_str k ?f')"
      using False d(1) by (simp del: of_nat_add add: digits_val_Cons unat_digit)
    then have "rat_of_nat (digits_val (frac_str (Suc k) f)) =
        of_nat (nat ?d) * 10 ^ length (frac_str k ?f') + of_nat (digits_val (frac_str k ?f'))"
      by simp
    also have "\<dots> = (of_int ?d + ?f') * 10 ^ length (frac_str k ?f')"
      using d(2) by (simp add: ih algebra_simps)
    also have "\<dots> = f * 10 ^ length (frac_str (Suc k) f)"
      using False by (simp add: split [symmetric])
    finally show ?thesis .
  qed
qed

lemma frac_str_not_Nil: "f \<noteq> 0 \<Longrightarrow> 0 < k \<Longrightarrow> frac_str k f \<noteq> []"
  by (cases k) simp_all

lemma parse_frac_part_none:
  "t = [] \<or> hd t \<noteq> 0x2E \<Longrightarrow> parse_frac_part t = Some (0, t)"
  by (auto simp: parse_frac_part_def)

lemma parse_frac_part_frac_str:
  assumes f: "0 < f" "f < 1" "f * 10 ^ k \<in> \<int>" and t: "t = [] \<or> \<not> is_digit (hd t)"
  shows "parse_frac_part (0x2E # frac_str k f @ t) = Some (f, t)"
proof -
  have k: "0 < k"
  proof (rule ccontr)
    assume "\<not> 0 < k"
    then have "f \<in> \<int>" using f(3) by simp
    then show False
      using f(1,2) by (metis Ints_cases of_int_0_less_iff of_int_less_1_iff zless_add1_eq
          add_0 less_le_not_le)
  qed
  have ne: "frac_str k f \<noteq> []"
    using frac_str_not_Nil f(1) k by simp
  have fz: "0 \<le> f" using f(1) by simp
  have sp: "takeWhile is_digit (frac_str k f @ t) = frac_str k f"
    "dropWhile is_digit (frac_str k f @ t) = t"
    using span_digits [OF frac_str_digits [OF fz f(2)] t] by simp_all
  have "rat_of_nat (digits_val (frac_str k f)) / 10 ^ length (frac_str k f) = f"
    using frac_str_val [OF fz f(2,3)] by simp
  then show ?thesis
    using sp ne by (simp add: parse_frac_part_def Let_def)
qed

lemma parse_exp_part_none:
  "t = [] \<or> (hd t \<noteq> 0x65 \<and> hd t \<noteq> 0x45) \<Longrightarrow> parse_exp_part t = Some (0, t)"
  by (auto simp: parse_exp_part_def)

lemma pow10_0: "pow10 0 = 1"
  by (simp add: pow10_def)

lemma num_str_magnitude: "num_str x = (if x < 0 then [0x2D] else []) @ magnitude_str \<bar>x\<bar>"
  by (simp add: num_str_def magnitude_str_def)

lemma magnitude_hd: "0 \<le> a \<Longrightarrow> is_digit (hd (magnitude_str a @ t))"
  using nat_str_digits [of "nat \<lfloor>a\<rfloor>"] nat_str_not_Nil [of "nat \<lfloor>a\<rfloor>"]
  by (simp add: magnitude_str_def hd_append)

lemma parse_magnitude:
  assumes a: "0 \<le> a" "a * 10 ^ frac_digits_max \<in> \<int>" and t: "number_end t"
  shows "parse_int_part (magnitude_str a @ t) =
           Some (nat \<lfloor>a\<rfloor>, (if frac a = 0 then [] else 0x2E # frac_str frac_digits_max (frac a)) @ t)"
    and "parse_frac_part ((if frac a = 0 then [] else 0x2E # frac_str frac_digits_max (frac a)) @ t) =
           Some (frac a, t)"
    and "parse_exp_part t = Some (0, t)"
proof -
  have t': "t = [] \<or> \<not> is_digit (hd t)" "t = [] \<or> hd t \<noteq> 0x2E"
    "t = [] \<or> (hd t \<noteq> 0x65 \<and> hd t \<noteq> 0x45)"
    using t by (auto simp: number_end_def)
  show "parse_exp_part t = Some (0, t)"
    using t'(3) by (rule parse_exp_part_none)
  have "frac a * 10 ^ frac_digits_max = a * 10 ^ frac_digits_max - of_int (\<lfloor>a\<rfloor> * 10 ^ frac_digits_max)"
    by (simp add: frac_def algebra_simps)
  then have fi: "frac a * 10 ^ frac_digits_max \<in> \<int>"
    using a(2) by (simp only: Ints_diff Ints_of_int)
  show "parse_frac_part ((if frac a = 0 then [] else 0x2E # frac_str frac_digits_max (frac a)) @ t) =
           Some (frac a, t)"
  proof (cases "frac a = 0")
    case True
    then show ?thesis
      using t'(2) by (simp add: parse_frac_part_none)
  next
    case False
    then have "0 < frac a"
      using frac_unit(1) [of a] by simp
    then show ?thesis
      using False parse_frac_part_frac_str [OF _ frac_unit(2) fi t'(1)] by simp
  qed
  have "(if frac a = 0 then [] else 0x2E # frac_str frac_digits_max (frac a)) @ t = [] \<or>
      \<not> is_digit (hd ((if frac a = 0 then [] else 0x2E # frac_str frac_digits_max (frac a)) @ t))"
    using t'(1) by (auto simp: is_digit_def)
  then show "parse_int_part (magnitude_str a @ t) =
           Some (nat \<lfloor>a\<rfloor>, (if frac a = 0 then [] else 0x2E # frac_str frac_digits_max (frac a)) @ t)"
    unfolding magnitude_str_def append_assoc by (rule parse_int_part_nat_str)
qed

lemma parse_number_num_str:
  assumes x: "plain_number x" and t: "number_end t"
  shows "parse_number (num_str x @ t) = Some (x, t)"
proof -
  have int: "\<bar>x\<bar> * 10 ^ frac_digits_max \<in> \<int>"
  proof -
    have "x * 10 ^ frac_digits_max \<in> \<int>"
      using x by (simp add: plain_number_def frac_eq_0_iff)
    then have "\<bar>x * 10 ^ frac_digits_max\<bar> \<in> \<int>"
      by (metis Ints_minus abs_if)
    then show ?thesis by (simp add: abs_mult)
  qed
  have a: "0 \<le> \<bar>x\<bar>" by simp
  note pm = parse_magnitude [OF a int t]
  have val: "of_nat (nat \<lfloor>\<bar>x\<bar>\<rfloor>) + frac \<bar>x\<bar> = \<bar>x\<bar>"
    by (simp add: frac_def)
  show ?thesis
  proof (cases "x < 0")
    case True
    then have s: "num_str x @ t = 0x2D # magnitude_str \<bar>x\<bar> @ t"
      by (simp add: num_str_magnitude)
    show ?thesis
      unfolding s using pm val True
      by (simp add: parse_number_def pow10_0)
  next
    case False
    then have s: "num_str x @ t = magnitude_str \<bar>x\<bar> @ t"
      by (simp add: num_str_magnitude)
    have "hd (magnitude_str \<bar>x\<bar> @ t) \<noteq> 0x2D"
      using magnitude_hd [OF a, of t] digit_not_minus by blast
    then show ?thesis
      unfolding s using pm val False
      by (simp add: parse_number_def pow10_0)
  qed
qed

subsection \<open>Values\<close>

lemma skip_ws_Cons: "\<not> is_ws c \<Longrightarrow> skip_ws (c # cs) = c # cs"
  by (simp add: skip_ws_def)

lemma parse_value_null: "parse_value (Suc m) (asc ''null'' @ t) = Some (JNull, t)"
  by (simp add: parse_value.simps skip_ws_def is_ws_def expect_def)

lemma parse_value_true: "parse_value (Suc m) (asc ''true'' @ t) = Some (JBool True, t)"
  by (simp add: parse_value.simps skip_ws_def is_ws_def expect_def)

lemma parse_value_false: "parse_value (Suc m) (asc ''false'' @ t) = Some (JBool False, t)"
  by (simp add: parse_value.simps skip_ws_def is_ws_def expect_def)

lemma parse_value_string:
  "parse_value (Suc m) (0x22 # r) =
     (case parse_chars r of None \<Rightarrow> None | Some (str, r') \<Rightarrow> Some (JStr str, r'))"
  by (simp add: parse_value.simps skip_ws_def is_ws_def)

lemma digit_dispatch:
  "c = 0x2D \<or> is_digit c \<Longrightarrow>
     \<not> is_ws c \<and> c \<noteq> 0x7B \<and> c \<noteq> 0x5B \<and> c \<noteq> 0x22 \<and> c \<noteq> 0x74 \<and> c \<noteq> 0x66 \<and> c \<noteq> 0x6E \<and>
     c \<noteq> 0x5D \<and> c \<noteq> 0x7D \<and> c \<noteq> 0x2C"
  by (auto simp: is_digit_def is_ws_def)

lemma parse_value_number:
  "c = 0x2D \<or> is_digit c \<Longrightarrow>
     parse_value (Suc m) (c # cs) =
       (case parse_number (c # cs) of None \<Rightarrow> None | Some (x, r) \<Rightarrow> Some (JNum x, r))"
  using digit_dispatch [of c] by (simp add: parse_value.simps skip_ws_Cons)

lemma parse_value_empty_array: "parse_value (Suc m) (0x5B # 0x5D # t) = Some (JArr [], t)"
  by (simp add: parse_value.simps skip_ws_def is_ws_def)

lemma parse_value_array:
  "\<not> is_ws d \<Longrightarrow> d \<noteq> 0x5D \<Longrightarrow>
     parse_value (Suc m) (0x5B # d # ds) =
       (case parse_elements m (d # ds) of None \<Rightarrow> None | Some (vs, r) \<Rightarrow> Some (JArr vs, r))"
  by (simp add: parse_value.simps skip_ws_def is_ws_def)

lemma parse_value_empty_object: "parse_value (Suc m) (0x7B # 0x7D # t) = Some (JObj [], t)"
  by (simp add: parse_value.simps skip_ws_def is_ws_def)

lemma parse_value_object:
  "\<not> is_ws d \<Longrightarrow> d \<noteq> 0x7D \<Longrightarrow>
     parse_value (Suc m) (0x7B # d # ds) = parse_members m [] (d # ds)"
  by (simp add: parse_value.simps skip_ws_def is_ws_def)

lemma parse_elements_more:
  "parse_value m s = Some (v, 0x2C # r) \<Longrightarrow>
     parse_elements (Suc m) s = cons_result v (parse_elements m r)"
  by (simp add: parse_elements.simps skip_ws_def is_ws_def)

lemma parse_elements_last:
  "parse_value m s = Some (v, 0x5D # r) \<Longrightarrow> parse_elements (Suc m) s = Some ([v], r)"
  by (simp add: parse_elements.simps skip_ws_def is_ws_def)

lemma parse_members_more:
  "parse_chars qs = Some (k, 0x3A # cs) \<Longrightarrow> parse_value m cs = Some (v, 0x2C # ds) \<Longrightarrow>
     parse_members (Suc m) acc (0x22 # qs) = parse_members m (set_member k v acc) ds"
  by (simp add: parse_members.simps skip_ws_def is_ws_def)

lemma parse_members_last:
  "parse_chars qs = Some (k, 0x3A # cs) \<Longrightarrow> parse_value m cs = Some (v, 0x7D # ds) \<Longrightarrow>
     parse_members (Suc m) acc (0x22 # qs) = Some (JObj (set_member k v acc), ds)"
  by (simp add: parse_members.simps skip_ws_def is_ws_def)

lemma set_member_fresh: "k \<notin> fst ` set acc \<Longrightarrow> set_member k v acc = acc @ [(k, v)]"
  by (induction acc) auto

lemma num_str_first: "\<exists>c cs. num_str x = c # cs \<and> (c = 0x2D \<or> is_digit c)"
proof (cases "x < 0")
  case True
  then show ?thesis by (simp add: num_str_magnitude)
next
  case False
  have "is_digit (hd (magnitude_str \<bar>x\<bar> @ []))"
    by (rule magnitude_hd) simp
  moreover have "magnitude_str \<bar>x\<bar> \<noteq> []"
    by (simp add: magnitude_str_def nat_str_not_Nil)
  ultimately show ?thesis
    using False by (cases "magnitude_str \<bar>x\<bar>") (simp_all add: num_str_magnitude)
qed

lemma stringify_first:
  "\<exists>c cs. stringify v = c # cs \<and> \<not> is_ws c \<and> c \<noteq> 0x5D \<and> c \<noteq> 0x7D"
proof (cases v)
  case (JNum x)
  then show ?thesis
    using num_str_first [of x] digit_dispatch by auto
qed (auto simp: is_ws_def QuoteJSONString_def)

lemma stringify_elems_first:
  assumes "vs \<noteq> []"
  shows "\<exists>c cs. stringify_elems vs = c # cs \<and> \<not> is_ws c \<and> c \<noteq> 0x5D \<and> c \<noteq> 0x7D"
proof -
  obtain v ws where vs: "vs = v # ws"
    using assms by (cases vs) auto
  obtain c cs where c: "stringify v = c # cs" "\<not> is_ws c" "c \<noteq> 0x5D" "c \<noteq> 0x7D"
    using stringify_first [of v] by blast
  show ?thesis
    using vs c by (cases ws) simp_all
qed

lemma stringify_members_first:
  assumes "kvs \<noteq> []"
  shows "\<exists>cs. stringify_members kvs = 0x22 # cs"
proof -
  obtain k v ws where kvs: "kvs = (k, v) # ws"
    using assms by (cases kvs) auto
  show ?thesis
    unfolding kvs by (cases ws) (auto simp: QuoteJSONString_def)
qed

lemma value_end_number_end: "value_end t \<Longrightarrow> number_end t"
  by (auto simp: value_end_def number_end_def is_digit_def)

lemma value_end_Cons: "value_end (0x2C # t)" "value_end (0x5D # t)" "value_end (0x7D # t)"
  by (simp_all add: value_end_def)

lemma parse_stringify:
  "wf_json v \<Longrightarrow> weight v \<le> n \<Longrightarrow> value_end t \<Longrightarrow>
     parse_value n (stringify v @ t) = Some (v, t)"
  "vs \<noteq> [] \<Longrightarrow> wf_elems vs \<Longrightarrow> weight_elems vs \<le> n \<Longrightarrow>
     parse_elements n (stringify_elems vs @ 0x5D # t) = Some (vs, t)"
  "kvs \<noteq> [] \<Longrightarrow> wf_members kvs \<Longrightarrow> distinct (map fst acc @ map fst kvs) \<Longrightarrow>
     weight_members kvs \<le> n \<Longrightarrow>
     parse_members n acc (stringify_members kvs @ 0x7D # t) = Some (JObj (acc @ kvs), t)"
proof (induction v and vs and kvs arbitrary: n t and n t and n acc t
    rule: stringify_stringify_elems_stringify_members.induct)
  case 1
  then obtain m where "n = Suc m" by (cases n) auto
  then show ?case by (simp add: parse_value_null del: asc_Cons)
next
  case (2 b)
  then obtain m where "n = Suc m" by (cases n) auto
  then show ?case by (simp add: parse_value_true parse_value_false del: asc_Cons)
next
  case (3 x)
  then obtain m where n: "n = Suc m" by (cases n) auto
  obtain c cs where c: "num_str x = c # cs" "c = 0x2D \<or> is_digit c"
    using num_str_first by blast
  have "parse_number (num_str x @ t) = Some (x, t)"
    using 3 by (simp add: parse_number_num_str value_end_number_end)
  then show ?case
    using parse_value_number [OF c(2), of m "cs @ t"] c(1) n by simp
next
  case (4 s)
  then obtain m where "n = Suc m" by (cases n) auto
  then show ?case
    by (simp add: QuoteJSONString_def parse_value_string parse_chars_quote_units)
next
  case (5 vs)
  then obtain m where n: "n = Suc m" by (cases n) auto
  show ?case
  proof (cases "vs = []")
    case True
    then show ?thesis by (simp add: n parse_value_empty_array)
  next
    case False
    obtain d ds where d: "stringify_elems vs = d # ds" "\<not> is_ws d" "d \<noteq> 0x5D"
      using stringify_elems_first [OF False] by blast
    have "parse_elements m (stringify_elems vs @ 0x5D # t) = Some (vs, t)"
      using 5 False n by simp
    then show ?thesis
      using parse_value_array [OF d(2,3), of m "ds @ 0x5D # t"] d(1) n by simp
  qed
next
  case (6 kvs)
  then obtain m where n: "n = Suc m" by (cases n) auto
  show ?case
  proof (cases "kvs = []")
    case True
    then show ?thesis by (simp add: n parse_value_empty_object)
  next
    case False
    obtain ds where d: "stringify_members kvs = 0x22 # ds"
      using stringify_members_first [OF False] by blast
    have "parse_members m [] (stringify_members kvs @ 0x7D # t) = Some (JObj ([] @ kvs), t)"
      using 6 False n by (intro "6.IH") simp_all
    then show ?thesis
      using parse_value_object [of "0x22" m "ds @ 0x7D # t"] d n by (simp add: is_ws_def)
  qed
next
  case 7
  then show ?case by simp
next
  case (8 v)
  then obtain m where n: "n = Suc m" by (cases n) auto
  have "parse_value m (stringify v @ 0x5D # t) = Some (v, 0x5D # t)"
    using 8 n by (intro "8.IH") (simp_all add: value_end_Cons)
  then show ?case
    using n by (simp add: parse_elements_last)
next
  case (9 v w vs)
  then obtain m where n: "n = Suc m" by (cases n) auto
  have "parse_value m (stringify v @ 0x2C # stringify_elems (w # vs) @ 0x5D # t) =
      Some (v, 0x2C # stringify_elems (w # vs) @ 0x5D # t)"
    using 9 n by (intro "9.IH"(1)) (simp_all add: value_end_Cons)
  moreover have "parse_elements m (stringify_elems (w # vs) @ 0x5D # t) = Some (w # vs, t)"
    using 9 n by (intro "9.IH"(2)) simp_all
  ultimately show ?case
    using n by (simp add: parse_elements_more)
next
  case 10
  then show ?case by simp
next
  case (11 k v)
  then obtain m where n: "n = Suc m" by (cases n) auto
  have k: "k \<notin> fst ` set acc"
    using 11 by auto
  have "parse_value m (stringify v @ 0x7D # t) = Some (v, 0x7D # t)"
    using 11 n by (intro "11.IH") (simp_all add: value_end_Cons)
  moreover have "parse_chars (quote_units k @ 0x22 # 0x3A # stringify v @ 0x7D # t) =
      Some (k, 0x3A # stringify v @ 0x7D # t)"
    by (rule parse_chars_quote_units)
  ultimately show ?case
    using n k by (simp add: QuoteJSONString_def parse_members_last set_member_fresh)
next
  case (12 k v kv kvs)
  then obtain m where n: "n = Suc m" by (cases n) auto
  have k: "k \<notin> fst ` set acc"
    using 12 by auto
  let ?rest = "stringify_members (kv # kvs) @ 0x7D # t"
  have "parse_value m (stringify v @ 0x2C # ?rest) = Some (v, 0x2C # ?rest)"
    using 12 n by (intro "12.IH"(1)) (simp_all add: value_end_Cons)
  moreover have "parse_chars (quote_units k @ 0x22 # 0x3A # stringify v @ 0x2C # ?rest) =
      Some (k, 0x3A # stringify v @ 0x2C # ?rest)"
    by (rule parse_chars_quote_units)
  moreover have "parse_members m (acc @ [(k, v)]) ?rest = Some (JObj ((acc @ [(k, v)]) @ kv # kvs), t)"
    using 12 n by (intro "12.IH"(2)) auto
  ultimately show ?case
    using n k by (simp add: QuoteJSONString_def parse_members_more set_member_fresh)
qed

lemma weight_le_length:
  "weight v \<le> length (stringify v)"
  "weight_elems vs \<le> Suc (length (stringify_elems vs))"
  "weight_members kvs \<le> Suc (length (stringify_members kvs))"
proof (induction v and vs and kvs rule: stringify_stringify_elems_stringify_members.induct)
  case (3 x)
  obtain c cs where "num_str x = c # cs"
    using num_str_first by blast
  then show ?case by simp
qed (simp_all add: QuoteJSONString_def)

lemma JSON_parse_stringify: "wf_json v \<Longrightarrow> JSON_parse (JSON_stringify v) = Some v"
proof -
  assume wf: "wf_json v"
  have "weight v \<le> Suc (length (stringify v))"
    using weight_le_length(1) [of v] by simp
  then have "parse_value (Suc (length (stringify v))) (stringify v @ []) = Some (v, [])"
    using wf by (intro parse_stringify(1)) (simp_all add: value_end_def)
  then show ?thesis
    by (simp add: JSON_parse_def JSON_stringify_def skip_ws_def)
qed

subsection \<open>The fuel of the parser\<close>

text \<open>
  A parse that succeeds with some fuel succeeds, with the same result, with every fuel
  from the number of code units it consumes on. So the fuel that \<open>JSON_parse\<close> gives, the
  length of the text and one more, never runs out: \<open>JSON_parse\<close> fails only on a text that
  no fuel parses.
\<close>

lemma skip_ws_length: "length (skip_ws s) \<le> length s"
  by (simp add: skip_ws_def length_dropWhile_le)

lemma skip_ws_Cons_length: "skip_ws s = c # cs \<Longrightarrow> length cs < length s"
  using skip_ws_length [of s] by simp

lemma cons_result_SomeD:
  "cons_result x r = Some (ys, t) \<Longrightarrow> \<exists>xs. r = Some (xs, t) \<and> ys = x # xs"
  by (auto simp: cons_result_def split: option.splits)

lemma parse_chars_length: "parse_chars s = Some (str, r) \<Longrightarrow> length r < length s"
proof (induction s arbitrary: str r rule: parse_chars.induct)
  case 1
  then show ?case by (simp add: parse_chars.simps)
next
  case (2 c cs)
  show ?case
    using "2.prems" "2.IH"
    by (auto simp: parse_chars.simps split: if_splits list.splits option.splits
        dest!: cons_result_SomeD) fastforce+
qed

lemma parse_int_part_length: "parse_int_part s = Some (i, r) \<Longrightarrow> length r < length s"
proof -
  assume a: "parse_int_part s = Some (i, r)"
  then have "takeWhile is_digit s \<noteq> []" "r = dropWhile is_digit s"
    by (auto simp: parse_int_part_def Let_def split: if_splits)
  moreover have "length (takeWhile is_digit s) + length (dropWhile is_digit s) = length s"
    by (metis length_append takeWhile_dropWhile_id)
  ultimately show ?thesis
    by (cases "takeWhile is_digit s") auto
qed

lemma parse_frac_part_length: "parse_frac_part s = Some (f, r) \<Longrightarrow> length r \<le> length s"
  using length_dropWhile_le [of is_digit "tl s"]
  by (auto simp: parse_frac_part_def Let_def split: if_splits)

lemma parse_exp_part_length: "parse_exp_part s = Some (e, r) \<Longrightarrow> length r \<le> length s"
proof -
  assume a: "parse_exp_part s = Some (e, r)"
  show ?thesis
  proof (cases "s \<noteq> [] \<and> (hd s = 0x65 \<or> hd s = 0x45)")
    case False
    with a show ?thesis by (auto simp: parse_exp_part_def)
  next
    case True
    then have "r = dropWhile is_digit (tl s) \<or> r = dropWhile is_digit (tl (tl s))"
      using a by (auto simp: parse_exp_part_def Let_def split: if_splits)
    then show ?thesis
      using length_dropWhile_le [of is_digit "tl s"] length_dropWhile_le [of is_digit "tl (tl s)"]
      by auto
  qed
qed

lemma parse_number_length: "parse_number s = Some (x, r) \<Longrightarrow> length r < length s"
proof -
  assume a: "parse_number s = Some (x, r)"
  then obtain i s2 f s3 e where
    p: "parse_int_part (if s \<noteq> [] \<and> hd s = 0x2D then tl s else s) = Some (i, s2)"
      "parse_frac_part s2 = Some (f, s3)" "parse_exp_part s3 = Some (e, r)"
    by (auto simp: parse_number_def Let_def split: option.splits)
  have "length s2 < length s"
    using parse_int_part_length [OF p(1)] by (auto split: if_splits)
  then show ?thesis
    using parse_frac_part_length [OF p(2)] parse_exp_part_length [OF p(3)] by simp
qed

lemma expect_length: "expect lit s = Some r \<Longrightarrow> length r \<le> length s"
  by (auto simp: expect_def split: if_splits)

lemma parse_fuel:
  "parse_value n s = Some (v, r) \<Longrightarrow>
     length r < length s \<and> (\<forall>m. length s - length r \<le> m \<longrightarrow> parse_value m s = Some (v, r))"
  "parse_elements n s = Some (vs, r) \<Longrightarrow>
     length r < length s \<and> (\<forall>m. length s - length r \<le> m \<longrightarrow> parse_elements m s = Some (vs, r))"
  "parse_members n acc s = Some (v, r) \<Longrightarrow>
     length r < length s \<and> (\<forall>m. length s - length r \<le> m \<longrightarrow> parse_members m acc s = Some (v, r))"
proof (induction n s and n s and n acc s arbitrary: v r and vs r and v r
    rule: parse_value_parse_elements_parse_members.induct)
  case (1 s)
  then show ?case by (simp add: parse_value.simps)
next
  case (2 n s)
  from "2.prems" obtain c cs where sk: "skip_ws s = c # cs"
    by (auto simp: parse_value.simps split: list.splits)
  have len: "length cs < length s"
    using skip_ws_Cons_length [OF sk] .
  have unfold: "parse_value (Suc k) s =
      (if c = 0x7B then
         (case skip_ws cs of [] \<Rightarrow> None
          | d # ds \<Rightarrow> if d = 0x7D then Some (JObj [], ds) else parse_members k [] cs)
       else if c = 0x5B then
         (case skip_ws cs of [] \<Rightarrow> None
          | d # ds \<Rightarrow> if d = 0x5D then Some (JArr [], ds)
                    else (case parse_elements k cs of None \<Rightarrow> None
                          | Some (vs, r) \<Rightarrow> Some (JArr vs, r)))
       else if c = 0x22 then
         (case parse_chars cs of None \<Rightarrow> None | Some (str, r) \<Rightarrow> Some (JStr str, r))
       else if c = 0x74 then
         (case expect (asc ''rue'') cs of None \<Rightarrow> None | Some r \<Rightarrow> Some (JBool True, r))
       else if c = 0x66 then
         (case expect (asc ''alse'') cs of None \<Rightarrow> None | Some r \<Rightarrow> Some (JBool False, r))
       else if c = 0x6E then
         (case expect (asc ''ull'') cs of None \<Rightarrow> None | Some r \<Rightarrow> Some (JNull, r))
       else
         (case parse_number (c # cs) of None \<Rightarrow> None | Some (x, r) \<Rightarrow> Some (JNum x, r)))" for k
    by (simp add: parse_value.simps sk)
  consider (obj) "c = 0x7B" | (arr) "c \<noteq> 0x7B" "c = 0x5B" | (leaf) "c \<noteq> 0x7B" "c \<noteq> 0x5B"
    by blast
  then show ?case
  proof cases
    case obj
    from "2.prems" obtain d ds where d: "skip_ws cs = d # ds"
      by (auto simp: unfold obj split: list.splits)
    have lends: "length ds < length cs"
      using skip_ws_Cons_length [OF d] .
    show ?thesis
    proof (cases "d = 0x7D")
      case True
      then have rv: "r = ds" "v = JObj []"
        using "2.prems" by (simp_all add: unfold obj d)
      show ?thesis
      proof (intro conjI allI impI)
        show "length r < length s" using rv len lends by simp
        fix m assume "length s - length r \<le> m"
        then obtain k where "m = Suc k"
          using rv len lends by (cases m) auto
        then show "parse_value m s = Some (v, r)"
          using True rv by (simp add: unfold obj d)
      qed
    next
      case False
      then have pm: "parse_members n [] cs = Some (v, r)"
        using "2.prems" by (simp add: unfold obj d)
      have ih: "length r < length cs"
        "\<And>m. length cs - length r \<le> m \<Longrightarrow> parse_members m [] cs = Some (v, r)"
        using "2.IH"(1) [OF sk obj d False pm] by auto
      show ?thesis
      proof (intro conjI allI impI)
        show "length r < length s" using ih(1) len by simp
        fix m assume m: "length s - length r \<le> m"
        then obtain k where k: "m = Suc k" "length cs - length r \<le> k"
          using ih(1) len by (cases m) auto
        show "parse_value m s = Some (v, r)"
          using ih(2) [OF k(2)] False by (simp add: k(1) unfold obj d)
      qed
    qed
  next
    case arr
    from "2.prems" obtain d ds where d: "skip_ws cs = d # ds"
      by (auto simp: unfold arr split: list.splits)
    have lends: "length ds < length cs"
      using skip_ws_Cons_length [OF d] .
    show ?thesis
    proof (cases "d = 0x5D")
      case True
      then have rv: "r = ds" "v = JArr []"
        using "2.prems" by (simp_all add: unfold arr d)
      show ?thesis
      proof (intro conjI allI impI)
        show "length r < length s" using rv len lends by simp
        fix m assume "length s - length r \<le> m"
        then obtain k where "m = Suc k"
          using rv len lends by (cases m) auto
        then show "parse_value m s = Some (v, r)"
          using True rv by (simp add: unfold arr d)
      qed
    next
      case False
      then obtain ws where pe: "parse_elements n cs = Some (ws, r)" and v: "v = JArr ws"
        using "2.prems" by (auto simp: unfold arr d split: option.splits)
      have ih: "length r < length cs"
        "\<And>m. length cs - length r \<le> m \<Longrightarrow> parse_elements m cs = Some (ws, r)"
        using "2.IH"(2) [OF sk arr(1) arr(2) d False pe] by auto
      show ?thesis
      proof (intro conjI allI impI)
        show "length r < length s" using ih(1) len by simp
        fix m assume m: "length s - length r \<le> m"
        then obtain k where k: "m = Suc k" "length cs - length r \<le> k"
          using ih(1) len by (cases m) auto
        show "parse_value m s = Some (v, r)"
          using ih(2) [OF k(2)] False by (simp add: k(1) unfold arr d v)
      qed
    qed
  next
    case leaf
    have same: "parse_value (Suc k) s = parse_value (Suc n) s" for k
      by (simp add: unfold leaf)
    have lr: "length r < length s"
    proof -
      have "length r \<le> length cs \<or> length r < length (c # cs)"
        using "2.prems" parse_chars_length [of cs] expect_length [of _ cs]
          parse_number_length [of "c # cs"]
        by (auto simp: unfold leaf split: if_splits option.splits dest: less_imp_le)
      then show ?thesis using len by auto
    qed
    have "parse_value m s = Some (v, r)" if m: "length s - length r \<le> m" for m
    proof (cases m)
      case 0
      then show ?thesis using m lr by simp
    next
      case (Suc k)
      then show ?thesis using same [of k] "2.prems" by simp
    qed
    then show ?thesis using lr by blast
  qed
next
  case (3 s)
  then show ?case by (simp add: parse_elements.simps)
next
  case (4 n s)
  from "4.prems" obtain w r1 where pv: "parse_value n s = Some (w, r1)"
    by (auto simp: parse_elements.simps split: option.splits)
  have ihv: "length r1 < length s"
    "\<And>m. length s - length r1 \<le> m \<Longrightarrow> parse_value m s = Some (w, r1)"
    using "4.IH"(1) [OF pv] by auto
  from "4.prems" obtain c cs where sk: "skip_ws r1 = c # cs"
    by (auto simp: parse_elements.simps pv split: list.splits)
  have len: "length cs < length r1"
    using skip_ws_Cons_length [OF sk] .
  have unfold: "parse_elements (Suc k) s =
      (case parse_value k s of None \<Rightarrow> None
       | Some (v, r) \<Rightarrow>
           (case skip_ws r of [] \<Rightarrow> None
            | c # cs \<Rightarrow> if c = 0x2C then cons_result v (parse_elements k cs)
                      else if c = 0x5D then Some ([v], cs) else None))" for k
    by (simp add: parse_elements.simps)
  show ?case
  proof (cases "c = 0x2C")
    case True
    then obtain ws where pe: "parse_elements n cs = Some (ws, r)" and vs: "vs = w # ws"
      using "4.prems" by (auto simp: unfold pv sk dest!: cons_result_SomeD)
    have ih: "length r < length cs"
      "\<And>m. length cs - length r \<le> m \<Longrightarrow> parse_elements m cs = Some (ws, r)"
      using "4.IH"(2) [OF pv refl sk True pe] by auto
    show ?thesis
    proof (intro conjI allI impI)
      show "length r < length s" using ih(1) len ihv(1) by simp
      fix m assume m: "length s - length r \<le> m"
      then obtain k where k: "m = Suc k" "length cs - length r \<le> k" "length s - length r1 \<le> k"
        using ih(1) len ihv(1) by (cases m) auto
      show "parse_elements m s = Some (vs, r)"
        using ih(2) [OF k(2)] ihv(2) [OF k(3)] True
        by (simp add: k(1) unfold sk vs cons_result_def)
    qed
  next
    case False
    then have c: "c = 0x5D" and r: "r = cs" and vs: "vs = [w]"
      using "4.prems" by (auto simp: unfold pv sk split: if_splits)
    show ?thesis
    proof (intro conjI allI impI)
      show "length r < length s" using r len ihv(1) by simp
      fix m assume m: "length s - length r \<le> m"
      then obtain k where k: "m = Suc k" "length s - length r1 \<le> k"
        using r len ihv(1) by (cases m) auto
      show "parse_elements m s = Some (vs, r)"
        using ihv(2) [OF k(2)] c by (simp add: k(1) unfold sk vs r)
    qed
  qed
next
  case (5 acc s)
  then show ?case by (simp add: parse_members.simps)
next
  case (6 n acc s)
  have unfold: "parse_members (Suc k) acc s =
     (case skip_ws s of
        [] \<Rightarrow> None
      | q # qs \<Rightarrow>
          if q \<noteq> 0x22 then None
          else
            (case parse_chars qs of
               None \<Rightarrow> None
             | Some (k', r) \<Rightarrow>
                 (case skip_ws r of
                    [] \<Rightarrow> None
                  | c # cs \<Rightarrow>
                      if c \<noteq> 0x3A then None
                      else
                        (case parse_value k cs of
                           None \<Rightarrow> None
                         | Some (v, r') \<Rightarrow>
                             (case skip_ws r' of
                                [] \<Rightarrow> None
                              | d # ds \<Rightarrow>
                                  if d = 0x2C then parse_members k (set_member k' v acc) ds
                                  else if d = 0x7D then Some (JObj (set_member k' v acc), ds)
                                  else None)))))" for k
    by (simp add: parse_members.simps)
  from "6.prems" obtain q qs where sk1: "skip_ws s = q # qs" and q: "q = 0x22"
    by (auto simp: unfold split: list.splits if_splits)
  from "6.prems" obtain key r1 where pc: "parse_chars qs = Some (key, r1)"
    by (auto simp: unfold sk1 q split: option.splits)
  from "6.prems" obtain c cs where sk2: "skip_ws r1 = c # cs" and c: "c = 0x3A"
    by (auto simp: unfold sk1 q pc split: list.splits if_splits)
  from "6.prems" obtain w r2 where pv: "parse_value n cs = Some (w, r2)"
    by (auto simp: unfold sk1 q pc sk2 c split: option.splits)
  from "6.prems" obtain d ds where sk3: "skip_ws r2 = d # ds"
    by (auto simp: unfold sk1 q pc sk2 c pv split: list.splits)
  have l1: "length qs < length s" using skip_ws_Cons_length [OF sk1] .
  have l2: "length r1 < length qs" using parse_chars_length [OF pc] .
  have l3: "length cs < length r1" using skip_ws_Cons_length [OF sk2] .
  have l5: "length ds < length r2" using skip_ws_Cons_length [OF sk3] .
  have ihv: "length r2 < length cs"
    "\<And>m. length cs - length r2 \<le> m \<Longrightarrow> parse_value m cs = Some (w, r2)"
    using "6.IH"(1) [OF sk1 _ pc refl sk2 _ pv] q c by auto
  show ?case
  proof (cases "d = 0x2C")
    case True
    then have pm: "parse_members n (set_member key w acc) ds = Some (v, r)"
      using "6.prems" by (simp add: unfold sk1 q pc sk2 c pv sk3)
    have ih: "length r < length ds"
      "\<And>m. length ds - length r \<le> m \<Longrightarrow> parse_members m (set_member key w acc) ds = Some (v, r)"
      using "6.IH"(2) [OF sk1 _ pc refl sk2 _ pv refl sk3 True pm] q c by auto
    show ?thesis
    proof (intro conjI allI impI)
      show "length r < length s" using ih(1) l1 l2 l3 l5 ihv(1) by simp
      fix m assume m: "length s - length r \<le> m"
      then obtain k where k: "m = Suc k" "length ds - length r \<le> k" "length cs - length r2 \<le> k"
        using ih(1) l1 l2 l3 l5 ihv(1) by (cases m) auto
      show "parse_members m acc s = Some (v, r)"
        using ih(2) [OF k(2)] ihv(2) [OF k(3)] True
        by (simp add: k(1) unfold sk1 q pc sk2 c sk3)
    qed
  next
    case False
    then have d: "d = 0x7D" and r: "r = ds" and v: "v = JObj (set_member key w acc)"
      using "6.prems" by (auto simp: unfold sk1 q pc sk2 c pv sk3 split: if_splits)
    show ?thesis
    proof (intro conjI allI impI)
      show "length r < length s" using r l1 l2 l3 l5 ihv(1) by simp
      fix m assume m: "length s - length r \<le> m"
      then obtain k where k: "m = Suc k" "length cs - length r2 \<le> k"
        using r l1 l2 l3 l5 ihv(1) by (cases m) auto
      show "parse_members m acc s = Some (v, r)"
        using ihv(2) [OF k(2)] d
        by (simp add: k(1) unfold sk1 q pc sk2 c sk3 v r)
    qed
  qed
qed

lemma JSON_parse_any_fuel:
  assumes "parse_value n s = Some (v, r)" "skip_ws r = []"
  shows "JSON_parse s = Some v"
proof -
  have "length s - length r \<le> Suc (length s)"
    by simp
  then have "parse_value (Suc (length s)) s = Some (v, r)"
    using parse_fuel(1) [OF assms(1)] by blast
  then show ?thesis
    using assms(2) by (simp add: JSON_parse_def)
qed

lemma JSON_parse_None_iff:
  "JSON_parse s = None \<longleftrightarrow> (\<forall>n v r. parse_value n s = Some (v, r) \<longrightarrow> skip_ws r \<noteq> [])"
proof
  assume none: "JSON_parse s = None"
  show "\<forall>n v r. parse_value n s = Some (v, r) \<longrightarrow> skip_ws r \<noteq> []"
  proof (intro allI impI notI)
    fix n v r
    assume "parse_value n s = Some (v, r)" "skip_ws r = []"
    then have "JSON_parse s = Some v"
      by (rule JSON_parse_any_fuel)
    then show False
      using none by simp
  qed
next
  assume "\<forall>n v r. parse_value n s = Some (v, r) \<longrightarrow> skip_ws r \<noteq> []"
  then show "JSON_parse s = None"
    by (auto simp: JSON_parse_def split: option.splits)
qed

section \<open>The store\<close>

lemma members_keys: "set (map fst (members kxs)) \<subseteq> set (map fst kxs)"
  by (induction kxs rule: members.induct) auto

lemma distinct_members: "distinct (map fst kxs) \<Longrightarrow> distinct (map fst (members kxs))"
proof (induction kxs rule: members.induct)
  case (3 k v kxs)
  then show ?case using members_keys [of kxs] by auto
qed simp_all

lemma wf_members_members:
  "(\<And>k v. (k, Some v) \<in> set kxs \<Longrightarrow> wf_json v) \<Longrightarrow> wf_members (members kxs)"
  by (induction kxs rule: members.induct) auto

lemma wf_obj:
  "distinct (map fst kxs) \<Longrightarrow> (\<And>k v. (k, Some v) \<in> set kxs \<Longrightarrow> wf_json v) \<Longrightarrow> wf_json (obj kxs)"
  by (simp add: obj_def distinct_members wf_members_members)

lemma wf_elems_map: "(\<And>x. x \<in> set xs \<Longrightarrow> wf_json (f x)) \<Longrightarrow> wf_elems (map f xs)"
  by (induction xs) auto

lemma map_of_members:
  "distinct (map fst kxs) \<Longrightarrow>
     map_of (members kxs) k = (case map_of kxs k of Some (Some v) \<Rightarrow> Some v | _ \<Rightarrow> None)"
proof (induction kxs rule: members.induct)
  case (2 k' kxs)
  then show ?case
    by (auto simp: map_of_eq_None_iff image_iff split: option.splits)
next
  case (3 k' v kxs)
  then show ?case by auto
qed simp

lemma field_obj:
  "distinct (map fst kxs) \<Longrightarrow>
     field (obj kxs) k = (case map_of kxs k of Some (Some v) \<Rightarrow> Some v | _ \<Rightarrow> None)"
  by (simp add: field_def obj_def map_of_members)

lemma plain_number_of_nat: "n < 10 ^ 21 \<Longrightarrow> plain_number (of_nat n)"
proof -
  assume n: "n < 10 ^ 21"
  have "rat_of_nat n * 10 ^ frac_digits_max = of_int (int n * 10 ^ frac_digits_max)"
    by simp
  then have "frac (rat_of_nat n * 10 ^ frac_digits_max) = 0"
    by (simp only: frac_of_int)
  moreover have "rat_of_nat n = 0 \<or> 1 / 10 ^ 6 \<le> \<bar>rat_of_nat n\<bar>"
  proof (cases "n = 0")
    case False
    then have "1 \<le> rat_of_nat n" by simp
    moreover have "(1::rat) / 10 ^ 6 \<le> 1" by simp
    ultimately show ?thesis by simp
  qed simp
  moreover have "\<bar>rat_of_nat n\<bar> < 10 ^ 21"
  proof -
    have "rat_of_nat n < rat_of_nat (10 ^ 21)"
      using n by (simp only: of_nat_less_iff)
    then show ?thesis by simp
  qed
  ultimately show ?thesis
    by (simp add: plain_number_def)
qed

lemma student_roundtrip: "student_of_js (js_of_student s) = s"
  by (simp add: student_of_js_def js_of_student_def field_obj as_str_def split: option.splits)

lemma wf_student: "wf_json (js_of_student s)"
  unfolding js_of_student_def
  by (rule wf_obj) (auto simp: map_option_case split: option.splits)

lemma feedback_roundtrip: "feedback_of_js (js_of_feedback f) = f"
  by (simp add: feedback_of_js_def js_of_feedback_def field_obj as_str_def as_num_def
      str_or_empty_def split: option.splits)

lemma wf_js_feedback: "wf_feedback f \<Longrightarrow> wf_json (js_of_feedback f)"
  unfolding js_of_feedback_def by (rule wf_obj) (auto simp: wf_feedback_def split: option.splits)

lemma profile_roundtrip: "profile_of_js (js_of_profile p) = p"
  by (simp add: profile_of_js_def js_of_profile_def field_obj as_str_def as_num_def as_list_def
      str_or_empty_def num_or_zero_def student_roundtrip comp_def)

lemma wf_js_profile: "wf_profile p \<Longrightarrow> wf_json (js_of_profile p)"
  unfolding js_of_profile_def
  by (rule wf_obj) (auto simp: wf_profile_def wf_student intro!: wf_elems_map)

lemma as_obj_obj: "as_obj (Some (obj kxs)) = Some (obj kxs)"
  by (simp add: as_obj_def obj_def)

lemma as_obj_simps:
  "as_obj None = None"
  "as_obj (Some (js_of_feedback f)) = Some (js_of_feedback f)"
  "as_obj (Some (js_of_profile p)) = Some (js_of_profile p)"
  by (simp_all add: as_obj_def js_of_feedback_def js_of_profile_def obj_def)

lemma session_roundtrip: "session_of_js (js_of_session r) = r"
  by (cases r; cases "feedback r")
    (simp_all add: session_of_js_def js_of_session_def field_obj as_str_def as_num_def
      str_or_empty_def num_or_zero_def feedback_roundtrip as_obj_simps)

lemma wf_js_session: "wf_session r \<Longrightarrow> wf_json (js_of_session r)"
  unfolding js_of_session_def
  by (rule wf_obj)
    (auto simp: wf_session_def plain_number_of_nat wf_js_feedback map_option_case
      split: option.splits)

lemma run_roundtrip: "run_of_js (js_of_run r) = r"
  by (cases r; cases "profile r")
    (simp_all add: run_of_js_def js_of_run_def field_obj as_str_def as_list_def
      str_or_empty_def profile_roundtrip session_roundtrip as_obj_simps comp_def)

lemma wf_js_run: "wf_run r \<Longrightarrow> wf_json (js_of_run r)"
  unfolding js_of_run_def
  by (rule wf_obj)
    (auto simp: wf_run_def wf_js_profile wf_js_session list_all_iff map_option_case
      split: option.splits intro!: wf_elems_map)

lemma runs_roundtrip: "runs_of_js (js_of_runs rs) = rs"
  by (simp add: runs_of_js_def js_of_runs_def as_list_def run_roundtrip comp_def)

lemma wf_js_runs: "wf_runs rs \<Longrightarrow> wf_json (js_of_runs rs)"
  by (simp add: js_of_runs_def wf_runs_def list_all_iff wf_elems_map wf_js_run)

lemma stringify_not_Nil: "JSON_stringify v \<noteq> []"
  using weight_le_length(1) [of v] by (cases v) (auto simp: JSON_stringify_def)

lemma load_save:
  assumes "wf_json v" "truthy v"
  shows "loadRuns (saveRuns v slot) = v"
  using assms JSON_parse_stringify [OF assms(1)] stringify_not_Nil [of v]
  by (simp add: loadRuns_def saveRuns_def or_str_def)


lemma plain_number_numeral: "numeral k < (10::nat) ^ 21 \<Longrightarrow> plain_number (numeral k)"
  using plain_number_of_nat [of "numeral k"] by simp

lemma plain_number_1: "plain_number 1"
  using plain_number_of_nat [of 1] by simp

lemma plain_number_three_halves: "plain_number (3 / 2)"
  by (simp add: plain_number_def frac_digits_max_def)


lemma empty_array: "JSON_parse (asc ''[]'') = Some (JArr [])"
  by (simp add: JSON_parse_def parse_value_empty_array skip_ws_def)




end
